theory Spec2Isabelle
  imports Complex_Main "HOL-Library.Multiset" "HOL-Library.Product_Lexorder"
begin

section \<open>Partitioning the input (distributed\_sort.py, process\_distributed)\<close>

text \<open>
  Python's \<^verbatim>\<open>xs[a:b]\<close> for non-negative \<open>a\<close> and \<open>b\<close>: both bounds are clamped to the
  length of the list, and the slice is empty when \<open>b \<le> a\<close>.
\<close>

definition py_slice :: "'a list \<Rightarrow> nat \<Rightarrow> nat \<Rightarrow> 'a list" where
  "py_slice xs a b = take (b - a) (drop a xs)"

text \<open>\<^verbatim>\<open>chunk_size = max(1, len(numbers) // server_count)\<close>\<close>

definition chunk_size :: "'a list \<Rightarrow> nat \<Rightarrow> nat" where
  "chunk_size numbers server_count = max 1 (length numbers div server_count)"

text \<open>
  The body of the loop \<^verbatim>\<open>for i in range(server_count)\<close>: the slice appended for index \<open>i\<close>.
\<close>

definition chunk_at :: "'a list \<Rightarrow> nat \<Rightarrow> nat \<Rightarrow> 'a list" where
  "chunk_at numbers server_count i =
     (let start_idx = i * chunk_size numbers server_count;
          end_idx = (if i < server_count - 1
                     then start_idx + chunk_size numbers server_count
                     else length numbers)
      in py_slice numbers start_idx end_idx)"

definition make_chunks :: "'a list \<Rightarrow> nat \<Rightarrow> 'a list list" where
  "make_chunks numbers server_count = map (chunk_at numbers server_count) [0..<server_count]"


section \<open>The k-way merge (distributed\_sort.py, merge\_sorted\_lists)\<close>

text \<open>
  A heap entry is the tuple \<^verbatim>\<open>(value, idx, list_idx)\<close>; Python compares tuples
  lexicographically, which is the order that HOL-Library.Product_Lexorder gives to products.

  \<^verbatim>\<open>heapq\<close> belongs to Python's standard library. It is modelled by its contract: the heap
  is a bag of entries, \<^verbatim>\<open>heappush\<close> adds one entry and \<^verbatim>\<open>heappop\<close> removes and returns the
  smallest one. The entries of one merge are pairwise different (they differ in
  \<^verbatim>\<open>(idx, list_idx)\<close>), so the smallest entry is unique and the contract fixes every pop.
\<close>

type_synonym entry = "int \<times> nat \<times> nat"

definition heappush :: "entry list \<Rightarrow> entry \<Rightarrow> entry list" where
  "heappush heap e = e # heap"

definition heappop :: "entry list \<Rightarrow> entry \<times> entry list" where
  "heappop heap = (min_list heap, remove1 (min_list heap) heap)"

text \<open>
  The first loop: \<^verbatim>\<open>for i, lst in enumerate(lists): if lst: heappush(heap, (lst[0], 0, i))\<close>.
\<close>

definition init_heap :: "int list list \<Rightarrow> entry list" where
  "init_heap lsts =
     fold (\<lambda>(i, lst) heap. if lst \<noteq> [] then heappush heap (hd lst, 0, i) else heap)
          (enumerate 0 lsts) []"

text \<open>
  What one iteration of \<^verbatim>\<open>while heap\<close> leaves in the heap after popping \<open>(val, idx, list_idx)\<close>.
\<close>

definition refill :: "int list list \<Rightarrow> entry \<Rightarrow> entry list \<Rightarrow> entry list" where
  "refill lsts e heap =
     (case e of (val, idx, list_idx) \<Rightarrow>
        if idx + 1 < length (lsts ! list_idx)
        then heappush heap (lsts ! list_idx ! (idx + 1), idx + 1, list_idx)
        else heap)"

definition weight :: "int list list \<Rightarrow> entry \<Rightarrow> nat" where
  "weight lsts e = (case e of (val, idx, list_idx) \<Rightarrow> Suc (length (lsts ! list_idx) - idx))"

text \<open>
  The loop \<^verbatim>\<open>while heap\<close>, with the list \<^verbatim>\<open>result\<close> as accumulator. \<open>merge_pops\<close> is the same loop
  recording the whole popped tuple instead of its value, to speak about the order in which
  the sources are served.
\<close>

function merge_loop :: "int list list \<Rightarrow> entry list \<Rightarrow> int list \<Rightarrow> int list" where
  "merge_loop lsts heap result =
     (if heap = [] then result
      else (case heappop heap of
              (e, heap') \<Rightarrow> merge_loop lsts (refill lsts e heap') (result @ [fst e])))"
  by pat_completeness auto

lemma weight_heappop:
  assumes "heap \<noteq> []" and "heappop heap = (e, heap')"
  shows "sum_list (map (weight lsts) (refill lsts e heap'))
           < sum_list (map (weight lsts) heap)"
proof -
  from assms have e: "e = min_list heap" and h: "heap' = remove1 e heap"
    by (auto simp: heappop_def)
  from assms(1) e have mem: "e \<in> set heap"
    by (simp add: min_list_Min)
  have total: "sum_list (map (weight lsts) heap)
                 = weight lsts e + sum_list (map (weight lsts) heap')"
    unfolding h by (rule sum_list_map_remove1 [OF mem])
  obtain val idx list_idx where t: "e = (val, idx, list_idx)"
    by (cases e) auto
  show ?thesis
    unfolding total by (auto simp: t refill_def weight_def heappush_def)
qed

termination merge_loop
  by (relation "measure (\<lambda>(lsts, heap, result). sum_list (map (weight lsts) heap))")
     (auto simp: weight_heappop)

function merge_pops :: "int list list \<Rightarrow> entry list \<Rightarrow> entry list \<Rightarrow> entry list" where
  "merge_pops lsts heap popped =
     (if heap = [] then popped
      else (case heappop heap of
              (e, heap') \<Rightarrow> merge_pops lsts (refill lsts e heap') (popped @ [e])))"
  by pat_completeness auto

termination merge_pops
  by (relation "measure (\<lambda>(lsts, heap, popped). sum_list (map (weight lsts) heap))")
     (auto simp: weight_heappop)

definition merge_sorted_lists :: "int list list \<Rightarrow> int list" where
  "merge_sorted_lists lsts =
     (if lsts = [] then []
      else if length lsts = 1 then lsts ! 0
      else merge_loop lsts (init_heap lsts) [])"


text \<open>
  Notions used to reason about the loop: an entry is valid when it names an element of its
  source, \<open>rest_of\<close> is the part of a source not yet emitted when its entry is in the heap,
  and the heap holds at most one entry per source.
\<close>

definition valid_entry :: "int list list \<Rightarrow> entry \<Rightarrow> bool" where
  "valid_entry lsts e =
     (case e of (val, idx, list_idx) \<Rightarrow>
        list_idx < length lsts \<and> idx < length (lsts ! list_idx) \<and> val = lsts ! list_idx ! idx)"

definition source_of :: "entry \<Rightarrow> nat" where
  "source_of e = snd (snd e)"

definition rest_of :: "int list list \<Rightarrow> entry \<Rightarrow> int list" where
  "rest_of lsts e = (case e of (val, idx, list_idx) \<Rightarrow> drop idx (lsts ! list_idx))"

definition heap_inv :: "int list list \<Rightarrow> entry list \<Rightarrow> bool" where
  "heap_inv lsts heap =
     ((\<forall>e \<in> set heap. valid_entry lsts e) \<and> distinct (map source_of heap))"


section \<open>The worker registry (server\_manager.py)\<close>

text \<open>
  A registration request is the dictionary that \<^verbatim>\<open>json.loads\<close> built. Its fields are modelled
  as JSON scalars (\<^verbatim>\<open>null\<close>, booleans, integers, floats read as real numbers, strings);
  \<^verbatim>\<open>data.get(k)\<close> is \<^verbatim>\<open>None\<close> for a missing key.
\<close>

datatype jval = JNull | JBool bool | JInt int | JFloat real | JStr string

definition dict_get :: "(string \<rightharpoonup> jval) \<Rightarrow> string \<Rightarrow> jval" where
  "dict_get d k = (case d k of None \<Rightarrow> JNull | Some v \<Rightarrow> v)"

text \<open>Python's truth value of an object, as \<^verbatim>\<open>all([ip, port, name])\<close> tests it.\<close>

fun truthy :: "jval \<Rightarrow> bool" where
  "truthy JNull = False"
| "truthy (JBool b) = b"
| "truthy (JInt i) = (i \<noteq> 0)"
| "truthy (JFloat r) = (r \<noteq> 0)"
| "truthy (JStr s) = (s \<noteq> [])"

text \<open>\<^verbatim>\<open>isinstance(v, int)\<close>: \<^verbatim>\<open>bool\<close> is a subclass of \<^verbatim>\<open>int\<close>, with \<^verbatim>\<open>True == 1\<close>.\<close>

fun isinstance_int :: "jval \<Rightarrow> bool" where
  "isinstance_int (JInt i) = True"
| "isinstance_int (JBool b) = True"
| "isinstance_int v = False"

fun int_value :: "jval \<Rightarrow> int" where
  "int_value (JInt i) = i"
| "int_value (JBool b) = (if b then 1 else 0)"
| "int_value v = 0"

text \<open>
  Python's \<^verbatim>\<open>==\<close> on these values: numbers (booleans included) are equal when their values
  are, strings when they are the same string, \<^verbatim>\<open>None\<close> only to itself. \<open>canon\<close> maps
  every number to its value, so that \<^verbatim>\<open>a == b\<close> is equality of the canonical forms.
\<close>

fun canon :: "jval \<Rightarrow> jval" where
  "canon (JBool b) = JFloat (if b then 1 else 0)"
| "canon (JInt i) = JFloat (of_int i)"
| "canon v = v"

definition py_eq :: "jval \<Rightarrow> jval \<Rightarrow> bool" where
  "py_eq a b = (canon a = canon b)"

record ServerInfo =
  ip :: jval
  port :: jval
  name :: jval
  active :: bool
  last_response_time :: real
  last_check_time :: real
  total_processed :: int

text \<open>The test \<^verbatim>\<open>server.ip == ip and server.port == port\<close> of every loop over the registry.\<close>

definition same_key :: "ServerInfo \<Rightarrow> jval \<Rightarrow> jval \<Rightarrow> bool" where
  "same_key s ip_v port_v = (py_eq (ip s) ip_v \<and> py_eq (port s) port_v)"

text \<open>
  The replies of \<^verbatim>\<open>register_server\<close>:
  \<^item> \<open>Registered\<close> is \<^verbatim>\<open>{"status": "registered", "distribuido": True, "middleware_name": ...}\<close>;
  \<^item> \<open>MissingFields\<close> is \<^verbatim>\<open>{"status": "error", "mensaje": "Faltan campos obligatorios (ip, port, name)"}\<close>;
  \<^item> \<open>InvalidPort\<close> is \<^verbatim>\<open>{"status": "error", "mensaje": "Puerto invalido"}\<close> (the source writes
    the word with an accent).
  No statement of the body raises on the modelled values, so the reply of the
  \<^verbatim>\<open>except\<close> branch does not occur.
\<close>

datatype reg_reply = Registered | MissingFields | InvalidPort

text \<open>
  The \<^verbatim>\<open>for ... else\<close> loop: the first record with the key is replaced by the new record, and
  when the loop ends without \<^verbatim>\<open>break\<close> the new record is appended.
\<close>

fun register_loop :: "ServerInfo list \<Rightarrow> ServerInfo \<Rightarrow> ServerInfo list" where
  "register_loop [] new = [new]"
| "register_loop (s # ss) new =
     (if same_key s (ip new) (port new) then new # ss else s # register_loop ss new)"

text \<open>
  \<^verbatim>\<open>ServerInfo(ip, port, name, True, time.time(), time.time())\<close>: the positional arguments
  fill \<^verbatim>\<open>active\<close>, \<^verbatim>\<open>last_response_time\<close> and \<^verbatim>\<open>last_check_time\<close>; \<^verbatim>\<open>total_processed\<close> keeps its
  default 0. \<open>t1\<close> and \<open>t2\<close> are the two readings of the clock.
\<close>

definition register_server ::
  "(string \<rightharpoonup> jval) \<Rightarrow> real \<Rightarrow> real \<Rightarrow> ServerInfo list \<Rightarrow> reg_reply \<times> ServerInfo list" where
  "register_server d t1 t2 svs =
     (let ip_v = dict_get d ''ip''; port_v = dict_get d ''port''; name_v = dict_get d ''name'' in
      if \<not> (truthy ip_v \<and> truthy port_v \<and> truthy name_v) then (MissingFields, svs)
      else if \<not> isinstance_int port_v \<or> int_value port_v \<le> 0 \<or> int_value port_v > 65535
        then (InvalidPort, svs)
      else (Registered,
            register_loop svs
              \<lparr>ip = ip_v, port = port_v, name = name_v, active = True,
               last_response_time = t1, last_check_time = t2, total_processed = 0\<rparr>))"

text \<open>
  \<^verbatim>\<open>is_server_alive\<close> asks the network: it answers \<open>Up\<close> or \<open>Down\<close>, or raises an exception
  that its \<^verbatim>\<open>except\<close> clause does not catch (\<open>ProbeError\<close>, for instance from
  \<^verbatim>\<open>socket.gethostbyname\<close>, which is called outside the \<^verbatim>\<open>try\<close>).
\<close>

datatype probe = Up | Down | ProbeError

text \<open>
  The loop of \<^verbatim>\<open>update_servers_status\<close> with its counter. An exception leaves the records
  already visited updated and the others untouched; \<open>None\<close> is the exception.
\<close>

fun status_loop ::
  "(jval \<Rightarrow> jval \<Rightarrow> probe) \<Rightarrow> real \<Rightarrow> ServerInfo list \<Rightarrow> nat \<Rightarrow> ServerInfo list \<times> nat option" where
  "status_loop is_server_alive t [] active_count = ([], Some active_count)"
| "status_loop is_server_alive t (s # ss) active_count =
     (case is_server_alive (ip s) (port s) of
        ProbeError \<Rightarrow> (s # ss, None)
      | Up \<Rightarrow> (case status_loop is_server_alive t ss (active_count + 1) of
                (ss', r) \<Rightarrow> (s\<lparr>active := True, last_check_time := t\<rparr> # ss', r))
      | Down \<Rightarrow> (case status_loop is_server_alive t ss active_count of
                (ss', r) \<Rightarrow> (s\<lparr>active := False, last_check_time := t\<rparr> # ss', r)))"

definition update_servers_status ::
  "(jval \<Rightarrow> jval \<Rightarrow> probe) \<Rightarrow> real \<Rightarrow> ServerInfo list \<Rightarrow> ServerInfo list \<times> (nat \<times> nat) option" where
  "update_servers_status is_server_alive t svs =
     (case status_loop is_server_alive t svs 0 of
        (svs', None) \<Rightarrow> (svs', None)
      | (svs', Some active_count) \<Rightarrow> (svs', Some (active_count, length svs)))"

definition get_active_servers :: "ServerInfo list \<Rightarrow> ServerInfo list" where
  "get_active_servers svs = filter active svs"

text \<open>
  \<^verbatim>\<open>for i, s in enumerate(self.servers): if <key matches>: <update servers[i]>; break\<close>
\<close>

fun update_first :: "(ServerInfo \<Rightarrow> bool) \<Rightarrow> (ServerInfo \<Rightarrow> ServerInfo) \<Rightarrow> ServerInfo list \<Rightarrow> ServerInfo list" where
  "update_first P f [] = []"
| "update_first P f (s # ss) = (if P s then f s # ss else s # update_first P f ss)"

definition update_server_stats ::
  "ServerInfo list \<Rightarrow> jval \<Rightarrow> jval \<Rightarrow> real \<Rightarrow> nat \<Rightarrow> ServerInfo list" where
  "update_server_stats svs server_ip server_port t processed_items =
     update_first (\<lambda>s. same_key s server_ip server_port)
       (\<lambda>s. s\<lparr>last_response_time := t,
               total_processed := total_processed s + int processed_items\<rparr>) svs"

definition mark_server_inactive :: "ServerInfo list \<Rightarrow> jval \<Rightarrow> jval \<Rightarrow> ServerInfo list" where
  "mark_server_inactive svs server_ip server_port =
     update_first (\<lambda>s. same_key s server_ip server_port) (\<lambda>s. s\<lparr>active := False\<rparr>) svs"



section \<open>The sort dispatcher (distributed\_sort.py)\<close>

record ServerResult =
  server :: ServerInfo
  data :: "int list"
  success :: bool
  error_message :: string
  processing_time :: real

text \<open>
  What the network does with one partition sent to one worker:
  \<^item> \<open>Replied t xs\<close>: a complete reply arrived after \<open>t\<close> seconds and decoded to the JSON
    list \<open>xs\<close>;
  \<^item> \<open>Garbage msg t t'\<close>: a complete reply arrived after \<open>t\<close> seconds, but it is not JSON or
    not a list, so a \<^verbatim>\<open>ValueError\<close> with text \<open>msg\<close> is raised after the statistics of the
    worker were updated (\<open>t'\<close> is the time measured by the handler);
  \<^item> \<open>Failed msg t\<close>: an exception with text \<open>msg\<close> (connection refused, timeout, closed
    connection) before the reply was complete.
  The elements of a list are integers, as the types \<^verbatim>\<open>List[int]\<close> of \<^verbatim>\<open>ServerResult.data\<close> and
  of the argument \<^verbatim>\<open>numbers\<close> declare.
\<close>

datatype outcome = Replied real "int list" | Garbage string real real | Failed string real

definition send_chunk_to_server ::
  "(ServerInfo \<Rightarrow> int list \<Rightarrow> outcome) \<Rightarrow> ServerInfo list \<Rightarrow> ServerInfo \<Rightarrow> int list
     \<Rightarrow> ServerResult \<times> ServerInfo list" where
  "send_chunk_to_server net svs srv chunk =
     (case net srv chunk of
        Replied t sorted_chunk \<Rightarrow>
          (\<lparr>server = srv, data = sorted_chunk, success = True, error_message = [],
            processing_time = t\<rparr>,
           update_server_stats svs (ip srv) (port srv) t (length chunk))
      | Garbage msg t t' \<Rightarrow>
          (\<lparr>server = srv, data = [], success = False, error_message = msg,
            processing_time = t'\<rparr>,
           mark_server_inactive
             (update_server_stats svs (ip srv) (port srv) t (length chunk)) (ip srv) (port srv))
      | Failed msg t \<Rightarrow>
          (\<lparr>server = srv, data = [], success = False, error_message = msg,
            processing_time = t\<rparr>,
           mark_server_inactive svs (ip srv) (port srv)))"

text \<open>
  One thread per pair of \<^verbatim>\<open>zip(active_servers, chunks)\<close>, all joined before the results are
  read. A thread touches shared state only inside \<^verbatim>\<open>update_server_stats\<close> and
  \<^verbatim>\<open>mark_server_inactive\<close>, which hold the lock of the registry; the model runs the threads
  one after the other in the order of their indices (lemma \<open>run_workers_order\<close> below: any
  other order leaves the same registry), and \<^verbatim>\<open>results[idx]\<close> is the result of
  thread \<open>idx\<close>. \<^verbatim>\<open>send_chunk_to_server\<close> catches every exception, so every slot of
  \<^verbatim>\<open>results\<close> is filled.
\<close>

fun run_workers ::
  "(ServerInfo \<Rightarrow> int list \<Rightarrow> outcome) \<Rightarrow> (ServerInfo \<times> int list) list \<Rightarrow> ServerInfo list
     \<Rightarrow> ServerResult list \<times> ServerInfo list" where
  "run_workers net [] svs = ([], svs)"
| "run_workers net ((srv, chunk) # jobs) svs =
     (case send_chunk_to_server net svs srv chunk of
        (result, svs1) \<Rightarrow>
          (case run_workers net jobs svs1 of
             (results, svs2) \<Rightarrow> (result # results, svs2)))"

record stats =
  bytes_processed :: int
  numbers_sorted :: int
  total_errors :: int
  avg_response_time :: real

text \<open>
  The state of the middleware: the registry of the \<^verbatim>\<open>ServerManager\<close>, the counters of the
  \<^verbatim>\<open>DistributedSorter\<close> and the two counters of the \<^verbatim>\<open>ClientHandler\<close>.
\<close>

record middleware =
  servers :: "ServerInfo list"
  sorter_stats :: stats
  total_operations :: int
  successful_operations :: int

text \<open>
  The loop over \<^verbatim>\<open>results\<close>: the accumulator is
  \<^verbatim>\<open>(successful_results, failed_servers, stats["total_errors"])\<close>. A \<^verbatim>\<open>ServerResult\<close> is always
  true as a condition, so only \<^verbatim>\<open>result.success\<close> decides.
\<close>

definition collect_step ::
  "ServerResult \<Rightarrow> int list list \<times> jval list \<times> int \<Rightarrow> int list list \<times> jval list \<times> int" where
  "collect_step result acc =
     (case acc of (successful_results, failed_servers, errors) \<Rightarrow>
        if success result then (successful_results @ [data result], failed_servers, errors)
        else (successful_results, failed_servers @ [name (server result)], errors + 1))"

text \<open>
  What the client socket received:
  \<^item> \<open>NoServers\<close>: \<^verbatim>\<open>{"error": "No hay servidores disponibles para procesar"}\<close>;
  \<^item> \<open>AllFailed names\<close>: \<^verbatim>\<open>{"error": "Todos los servidores fallaron: <names>"}\<close>;
  \<^item> \<open>Sorted xs\<close>: the length prefix followed by the JSON of \<open>xs\<close>;
  \<^item> \<open>Exception\<close>: \<^verbatim>\<open>{"error": str(e)}\<close> of an \<^verbatim>\<open>except\<close> branch;
  \<^item> \<open>NoServersForSort\<close>, \<open>Ready\<close>, \<open>InvalidJson\<close> and \<open>ProtocolError\<close>: the messages of
    \<^verbatim>\<open>handle_distributed_sort\<close>.
\<close>

datatype client_msg =
    NoServers | AllFailed "jval list" | Sorted "int list" | Exception
  | NoServersForSort | Ready | InvalidJson | ProtocolError

text \<open>
  The environment of one call of \<^verbatim>\<open>process_distributed\<close>: the answers to the liveness
  probes, the clock, the behaviour of the workers, and whether writing to the client
  socket works (when it does not, every \<^verbatim>\<open>send\<close> raises).
\<close>

record world =
  is_server_alive :: "jval \<Rightarrow> jval \<Rightarrow> probe"
  now :: real
  network :: "ServerInfo \<Rightarrow> int list \<Rightarrow> outcome"
  client_ok :: bool

text \<open>
  The outer \<^verbatim>\<open>except Exception\<close> of \<^verbatim>\<open>process_distributed\<close>: one more error is counted, the
  error reply is attempted, and the result is \<^verbatim>\<open>False\<close>.
\<close>

definition on_exception :: "world \<Rightarrow> middleware \<Rightarrow> bool \<times> client_msg list \<times> middleware" where
  "on_exception w m =
     (False, (if client_ok w then [Exception] else []),
      m\<lparr>sorter_stats := (sorter_stats m)\<lparr>total_errors := total_errors (sorter_stats m) + 1\<rparr>\<rparr>)"

text \<open>
  \<^verbatim>\<open>client_socket.send(...)\<close> followed by \<^verbatim>\<open>return result\<close>. The reply is taken to fit the
  four-byte length prefix (\<^verbatim>\<open>struct.pack('!I', ...)\<close> raises for \<open>2^32\<close> bytes and more).
\<close>

definition send_and_return ::
  "world \<Rightarrow> client_msg \<Rightarrow> bool \<Rightarrow> middleware \<Rightarrow> bool \<times> client_msg list \<times> middleware" where
  "send_and_return w msg result m =
     (if client_ok w then (result, [msg], m) else on_exception w m)"

text \<open>
  \<^verbatim>\<open>', '.join(failed_servers)\<close> raises a \<^verbatim>\<open>TypeError\<close> unless every name is a string, and
  \<^verbatim>\<open>register_server\<close> accepts any name that is true as a condition. The join is evaluated
  for the error reply when no worker succeeded, and for the warning in the log when some
  worker failed (\<^verbatim>\<open>if failed_servers:\<close>); the exception reaches the outer \<^verbatim>\<open>except\<close>.
\<close>

fun is_str :: "jval \<Rightarrow> bool" where
  "is_str (JStr s) = True"
| "is_str v = False"

definition join_ok :: "jval list \<Rightarrow> bool" where
  "join_ok names = list_all is_str names"

definition process_distributed ::
  "world \<Rightarrow> int list \<Rightarrow> middleware \<Rightarrow> bool \<times> client_msg list \<times> middleware" where
  "process_distributed w numbers m =
     (case update_servers_status (is_server_alive w) (now w) (servers m) of
        (svs, None) \<Rightarrow> on_exception w (m\<lparr>servers := svs\<rparr>)
      | (svs, Some counts) \<Rightarrow>
          (let m1 = m\<lparr>servers := svs\<rparr>;
               active_servers = get_active_servers svs
           in if active_servers = [] then send_and_return w NoServers False m1
              else
                (let m2 = m1\<lparr>sorter_stats := (sorter_stats m1)
                             \<lparr>numbers_sorted :=
                                numbers_sorted (sorter_stats m1) + int (length numbers)\<rparr>\<rparr>;
                     server_count = length active_servers;
                     chunks = make_chunks numbers server_count
                 in case run_workers (network w) (zip active_servers chunks) (servers m2) of
                      (results, svs') \<Rightarrow>
                        (case fold collect_step results
                                ([], [], total_errors (sorter_stats m2)) of
                           (successful_results, failed_servers, errors) \<Rightarrow>
                             (let m3 = m2\<lparr>servers := svs',
                                         sorter_stats :=
                                           (sorter_stats m2)\<lparr>total_errors := errors\<rparr>\<rparr>
                              in if successful_results = []
                                 then (if join_ok failed_servers
                                       then send_and_return w (AllFailed failed_servers)
                                              False m3
                                       else on_exception w m3)
                                 else if failed_servers \<noteq> [] \<and> \<not> join_ok failed_servers
                                 then on_exception w m3
                                 else send_and_return w
                                        (Sorted (merge_sorted_lists successful_results))
                                        True m3)))))"

text \<open>
  What \<^verbatim>\<open>handle_distributed_sort\<close> reads from the client after its \<^verbatim>\<open>ready\<close> message:
  \<^item> \<open>NoLength\<close>: the connection was closed before the length prefix;
  \<^item> \<open>BadLength\<close>: the prefix is not four bytes (\<^verbatim>\<open>struct.error\<close>);
  \<^item> \<open>Truncated\<close>: the connection was closed before the announced bytes arrived;
  \<^item> \<open>RecvError\<close>: another exception while receiving, for instance the timeout;
  \<^item> \<open>Payload n p\<close>: all \<open>n\<close> bytes arrived, and \<open>p\<close> is what they decode to: \<open>NotJson\<close>
    (\<^verbatim>\<open>JSONDecodeError\<close>), \<open>NotList\<close> (a JSON value that is not a list, or bytes that are
    not text) or the list \<open>Numbers xs\<close>.
\<close>

datatype payload = NotJson | NotList | Numbers "int list"

datatype client_input = NoLength | BadLength | Truncated | RecvError | Payload nat payload

text \<open>
  The environment of one session: \<open>first\<close> for the part of \<^verbatim>\<open>handle_distributed_sort\<close> before
  the dispatcher, \<open>second\<close> for the call of \<^verbatim>\<open>process_distributed\<close>.
\<close>

record session =
  first :: world
  input :: client_input
  second :: world

text \<open>The outer \<^verbatim>\<open>except Exception\<close> of \<^verbatim>\<open>handle_distributed_sort\<close>.\<close>

definition handler_exception :: "world \<Rightarrow> middleware \<Rightarrow> client_msg list \<times> middleware" where
  "handler_exception w m =
     ((if client_ok w then [Exception] else []),
      m\<lparr>sorter_stats := (sorter_stats m)\<lparr>total_errors := total_errors (sorter_stats m) + 1\<rparr>\<rparr>)"

definition handle_distributed_sort :: "session \<Rightarrow> middleware \<Rightarrow> client_msg list \<times> middleware" where
  "handle_distributed_sort ses m =
     (case update_servers_status (is_server_alive (first ses)) (now (first ses)) (servers m) of
        (svs, None) \<Rightarrow> handler_exception (first ses) (m\<lparr>servers := svs\<rparr>)
      | (svs, Some (active_count, total_count)) \<Rightarrow>
          (let m1 = m\<lparr>servers := svs\<rparr> in
           if \<not> client_ok (first ses) then handler_exception (first ses) m1
           else if active_count = 0 then ([NoServersForSort], m1)
           else
             (case input ses of
                NoLength \<Rightarrow> ([Ready], m1)
              | BadLength \<Rightarrow> ([Ready, ProtocolError], m1)
              | Truncated \<Rightarrow> ([Ready], m1)
              | RecvError \<Rightarrow>
                  (case handler_exception (first ses) m1 of (msgs, m2) \<Rightarrow> (Ready # msgs, m2))
              | Payload bytes_received p \<Rightarrow>
                  (let m2 = m1\<lparr>sorter_stats := (sorter_stats m1)
                               \<lparr>bytes_processed :=
                                  bytes_processed (sorter_stats m1) + int bytes_received\<rparr>\<rparr>
                   in case p of
                        NotJson \<Rightarrow> ([Ready, InvalidJson], m2)
                      | NotList \<Rightarrow>
                          (case handler_exception (first ses) m2 of
                             (msgs, m3) \<Rightarrow> (Ready # msgs, m3))
                      | Numbers numbers \<Rightarrow>
                          (case process_distributed (second ses) numbers m2 of
                             (succeeded, msgs, m3) \<Rightarrow>
                               (let m4 = m3\<lparr>total_operations := total_operations m3 + 1\<rparr>;
                                    m5 = (if succeeded
                                          then m4\<lparr>successful_operations :=
                                                     successful_operations m4 + 1\<rparr>
                                          else m4)
                                in (Ready # msgs, m5)))))))"

text \<open>
  A run of the middleware as far as the counters of the client handler are concerned: the
  sessions that reach \<^verbatim>\<open>handle_distributed_sort\<close>, one after the other, from the state of
  \<^verbatim>\<open>__init__\<close>. No other method writes \<^verbatim>\<open>total_operations\<close> or \<^verbatim>\<open>successful_operations\<close>.
\<close>

definition run_sessions :: "session list \<Rightarrow> middleware \<Rightarrow> middleware" where
  "run_sessions sessions m = fold (\<lambda>ses m'. snd (handle_distributed_sort ses m')) sessions m"

definition initial :: middleware where
  "initial = \<lparr>servers = [],
              sorter_stats = \<lparr>bytes_processed = 0, numbers_sorted = 0, total_errors = 0,
                              avg_response_time = 0\<rparr>,
              total_operations = 0, successful_operations = 0\<rparr>"

text \<open>
  Notions used to reason about the registry: the key of a record, in canonical form, and
  the jobs of a dispatch whose worker did not deliver a list.
\<close>

definition key_of :: "ServerInfo \<Rightarrow> jval \<times> jval" where
  "key_of s = (canon (ip s), canon (port s))"

fun delivered :: "outcome \<Rightarrow> bool" where
  "delivered (Replied t xs) = True"
| "delivered (Garbage msg t t') = False"
| "delivered (Failed msg t) = False"


text \<open>
  Notions used to state and prove the properties of the dispatcher: the list a worker
  delivered, the jobs that failed and the replies of the others, a key whose records
  are all inactive, and the fleet of three workers of the examples (with a network in
  which every worker sorts, and one in which the worker W2 refuses the connection), also
  with the second worker registered under the name 7.
\<close>

fun reply_of :: "outcome \<Rightarrow> int list" where
  "reply_of (Replied t xs) = xs"
| "reply_of (Garbage msg t t') = []"
| "reply_of (Failed msg t) = []"

definition failed_jobs ::
  "(ServerInfo \<Rightarrow> int list \<Rightarrow> outcome) \<Rightarrow> (ServerInfo \<times> int list) list
     \<Rightarrow> (ServerInfo \<times> int list) list" where
  "failed_jobs net jobs = filter (\<lambda>(srv, chunk). \<not> delivered (net srv chunk)) jobs"

definition replies ::
  "(ServerInfo \<Rightarrow> int list \<Rightarrow> outcome) \<Rightarrow> (ServerInfo \<times> int list) list \<Rightarrow> int list list" where
  "replies net jobs =
     map (\<lambda>(srv, chunk). reply_of (net srv chunk))
         (filter (\<lambda>(srv, chunk). delivered (net srv chunk)) jobs)"


text \<open>
  What a finished thread has done to the record of its worker, and the job of a key.
\<close>

fun effect :: "outcome \<Rightarrow> nat \<Rightarrow> ServerInfo \<Rightarrow> ServerInfo" where
  "effect (Replied t xs) n s =
     s\<lparr>last_response_time := t, total_processed := total_processed s + int n\<rparr>"
| "effect (Garbage msg t t') n s =
     s\<lparr>last_response_time := t, total_processed := total_processed s + int n,
       active := False\<rparr>"
| "effect (Failed msg t) n s = s\<lparr>active := False\<rparr>"

definition job_of ::
  "(ServerInfo \<times> int list) list \<Rightarrow> jval \<times> jval \<Rightarrow> (ServerInfo \<times> int list) option" where
  "job_of jobs = map_of (map (\<lambda>j. (key_of (fst j), j)) jobs)"

definition registered :: "string \<Rightarrow> int \<Rightarrow> ServerInfo" where
  "registered nm p =
     \<lparr>ip = JStr ''10.0.0.5'', port = JInt p, name = JStr nm, active = True,
      last_response_time = 0, last_check_time = 0, total_processed = 0\<rparr>"

definition fleet :: middleware where
  "fleet = initial\<lparr>servers := [registered ''W1'' 9001, registered ''W2'' 9002,
                                registered ''W3'' 9003]\<rparr>"

definition honest :: world where
  "honest = \<lparr>is_server_alive = (\<lambda>i p. Up), now = 10,
             network = (\<lambda>srv chunk. Replied 1 (sort chunk)), client_ok = True\<rparr>"

definition refusing :: world where
  "refusing = honest\<lparr>network := (\<lambda>srv chunk. if name srv = JStr ''W2''
                                               then Failed ''refused'' 0
                                               else Replied 1 (sort chunk))\<rparr>"



definition probed :: "ServerInfo list" where
  "probed = map (\<lambda>s. s\<lparr>last_check_time := 10\<rparr>) (servers fleet)"

definition sort_session :: session where
  "sort_session = \<lparr>first = honest, input = Payload 18 (Numbers [9, 2, 7, 1, 8, 3]),
                    second = refusing\<rparr>"



section \<open>Properties of the partitioning\<close>

lemma concat_slices:
  "concat (map (\<lambda>i. py_slice xs (i * k) (i * k + k)) [0..<m]) = take (m * k) xs"
proof (induction m)
  case 0
  show ?case by simp
next
  case (Suc m)
  have "Suc m * k = m * k + k" by simp
  then have "take (Suc m * k) xs = take (m * k) xs @ take k (drop (m * k) xs)"
    by (simp only: take_add)
  with Suc show ?case by (simp add: py_slice_def)
qed

lemma chunk_at_inner:
  "i < c - 1 \<Longrightarrow> chunk_at xs c i
     = py_slice xs (i * chunk_size xs c) (i * chunk_size xs c + chunk_size xs c)"
  by (simp add: chunk_at_def Let_def)

lemma chunk_at_last:
  "\<not> i < c - 1 \<Longrightarrow> chunk_at xs c i = drop (i * chunk_size xs c) xs"
  by (simp add: chunk_at_def Let_def py_slice_def)

lemma concat_make_chunks:
  assumes "1 \<le> c"
  shows "concat (make_chunks xs c) = xs"
proof -
  from assms obtain m where c: "c = Suc m"
    by (cases c) auto
  have inner: "map (chunk_at xs c) [0..<m]
                 = map (\<lambda>i. py_slice xs (i * chunk_size xs c) (i * chunk_size xs c + chunk_size xs c)) [0..<m]"
    by (rule map_cong) (auto simp: c chunk_at_inner)
  have "concat (make_chunks xs c)
          = concat (map (chunk_at xs c) [0..<m]) @ chunk_at xs c m"
    by (simp add: make_chunks_def c)
  also have "\<dots> = take (m * chunk_size xs c) xs @ drop (m * chunk_size xs c) xs"
    unfolding inner concat_slices by (simp add: chunk_at_last c)
  finally show ?thesis by simp
qed

lemma segment_of_concat:
  "i < length xss \<Longrightarrow>
     xss ! i = take (length (xss ! i)) (drop (length (concat (take i xss))) (concat xss))"
proof (induction xss arbitrary: i)
  case Nil
  then show ?case by simp
next
  case (Cons ys xss)
  show ?case
  proof (cases i)
    case 0
    then show ?thesis by simp
  next
    case (Suc j)
    with Cons.prems have "j < length xss" by simp
    from Cons.IH [OF this] show ?thesis by (simp add: Suc)
  qed
qed

text \<open>
  C2. For an input of any length and \<open>c \<ge> 1\<close> active workers, the partitioning loop builds
  exactly \<open>c\<close> partitions with \<open>chunk = max 1 (n div c)\<close>: partition \<open>i < c - 1\<close> is
  \<^verbatim>\<open>input[i*chunk : (i+1)*chunk]\<close> and the last one is \<^verbatim>\<open>input[(c-1)*chunk : n]\<close>. Their
  concatenation is the input, and each partition is the segment of the input that starts
  where the partitions before it end (contiguous and disjoint).
\<close>

theorem make_chunks_partition:
  assumes "1 \<le> c"
  shows "length (make_chunks xs c) = c
       \<and> (\<forall>i<c. make_chunks xs c ! i =
             (if i < c - 1
              then py_slice xs (i * max 1 (length xs div c)) ((i + 1) * max 1 (length xs div c))
              else py_slice xs ((c - 1) * max 1 (length xs div c)) (length xs)))
       \<and> concat (make_chunks xs c) = xs
       \<and> (\<forall>i<c. make_chunks xs c ! i =
             take (length (make_chunks xs c ! i))
                  (drop (length (concat (take i (make_chunks xs c)))) xs))"
proof (intro conjI allI impI)
  show len: "length (make_chunks xs c) = c"
    by (simp add: make_chunks_def)
  show cat: "concat (make_chunks xs c) = xs"
    by (rule concat_make_chunks [OF assms])
  fix i assume i: "i < c"
  show "make_chunks xs c ! i =
          (if i < c - 1
           then py_slice xs (i * max 1 (length xs div c)) ((i + 1) * max 1 (length xs div c))
           else py_slice xs ((c - 1) * max 1 (length xs div c)) (length xs))"
  proof (cases "i < c - 1")
    case True
    with i show ?thesis
      by (simp add: make_chunks_def chunk_at_def Let_def chunk_size_def add.commute)
  next
    case False
    with i have "i = c - 1" by simp
    with i False show ?thesis
      by (simp add: make_chunks_def chunk_at_def Let_def chunk_size_def)
  qed
  from i len have "i < length (make_chunks xs c)" by simp
  from segment_of_concat [OF this]
  show "make_chunks xs c ! i =
          take (length (make_chunks xs c ! i))
               (drop (length (concat (take i (make_chunks xs c)))) xs)"
    by (simp add: cat)
qed


theorem make_chunks_partition_witness:
  "(1::nat) \<le> 3 \<and> make_chunks [9, 2, 7, 1, 8, 3, 5 :: int] 3 = [[9, 2], [7, 1], [8, 3, 5]]
    \<and> length (make_chunks [9, 2, 7, 1, 8, 3, 5 :: int] 3) = 3
    \<and> concat (make_chunks [9, 2, 7, 1, 8, 3, 5 :: int] 3) = [9, 2, 7, 1, 8, 3, 5]"
  using make_chunks_partition [of 3 "[9, 2, 7, 1, 8, 3, 5 :: int]"]
  by (simp add: make_chunks_def chunk_at_def chunk_size_def py_slice_def upt_rec)


section \<open>Properties of the merge\<close>

declare merge_loop.simps [simp del] merge_pops.simps [simp del]

lemma heappop_min:
  assumes "heap \<noteq> []" and "(e, heap') = heappop heap"
  shows "e \<in> set heap" and "\<forall>x \<in> set heap. e \<le> x" and "heap' = remove1 e heap"
proof -
  from assms have e: "e = Min (set heap)" and h: "heap' = remove1 e heap"
    by (auto simp: heappop_def min_list_Min)
  from assms(1) show "e \<in> set heap"
    unfolding e by (intro Min_in) auto
  show "\<forall>x \<in> set heap. e \<le> x"
    unfolding e by auto
  show "heap' = remove1 e heap" by (rule h)
qed

lemma heap_inv_pop:
  assumes inv: "heap_inv lsts heap" and ne: "heap \<noteq> []" and pop: "(e, heap') = heappop heap"
  shows "valid_entry lsts e"
    and "heap_inv lsts heap'"
    and "source_of e \<notin> source_of ` set heap'"
    and "\<forall>x \<in> set heap'. e < x"
proof -
  note m = heappop_min [OF ne pop]
  from inv have d: "distinct heap" and inj: "inj_on source_of (set heap)"
    by (auto simp: heap_inv_def distinct_map)
  from d have s: "set heap' = set heap - {e}"
    unfolding m(3) by (rule set_remove1_eq)
  from inv m(1) show "valid_entry lsts e"
    by (auto simp: heap_inv_def)
  from inv show "heap_inv lsts heap'"
    unfolding heap_inv_def m(3)
    by (auto simp: distinct_map distinct_remove1 intro: inj_on_subset dest: notin_set_remove1)
  show "source_of e \<notin> source_of ` set heap'"
  proof
    assume "source_of e \<in> source_of ` set heap'"
    then obtain x where x: "x \<in> set heap'" "source_of x = source_of e" by auto
    with s have "x \<in> set heap" "x \<noteq> e" by auto
    with inj x(2) m(1) show False by (auto dest: inj_onD)
  qed
  show "\<forall>x \<in> set heap'. e < x"
  proof
    fix x assume "x \<in> set heap'"
    with s have "x \<in> set heap" "x \<noteq> e" by auto
    with m(2) show "e < x" by (auto simp: less_le)
  qed
qed

lemma heap_inv_refill:
  assumes inv: "heap_inv lsts heap" and ne: "heap \<noteq> []" and pop: "(e, heap') = heappop heap"
  shows "heap_inv lsts (refill lsts e heap')"
proof -
  note p = heap_inv_pop [OF inv ne pop]
  obtain val idx list_idx where t: "e = (val, idx, list_idx)" by (cases e) auto
  from p(1) p(2) p(3) show ?thesis
    by (auto simp: t refill_def heappush_def heap_inv_def valid_entry_def source_of_def)
qed

lemma refill_greater:
  assumes srt: "\<forall>l \<in> set lsts. sorted l"
    and inv: "heap_inv lsts heap" and ne: "heap \<noteq> []" and pop: "(e, heap') = heappop heap"
  shows "\<forall>x \<in> set (refill lsts e heap'). e < x"
proof -
  note p = heap_inv_pop [OF inv ne pop]
  obtain val idx list_idx where t: "e = (val, idx, list_idx)" by (cases e) auto
  from p(1) have li: "list_idx < length lsts" and v: "val = lsts ! list_idx ! idx"
    by (auto simp: t valid_entry_def)
  from li srt have "sorted (lsts ! list_idx)" by auto
  then have step: "idx + 1 < length (lsts ! list_idx)
                     \<Longrightarrow> val \<le> lsts ! list_idx ! (idx + 1)"
    unfolding v by (intro sorted_nth_mono) auto
  from p(4) step show ?thesis
    by (auto simp: t refill_def heappush_def)
qed

lemma merge_pops_strict:
  "\<lbrakk>\<forall>l \<in> set lsts. sorted l; heap_inv lsts heap; sorted_wrt (<) popped;
    \<forall>p \<in> set popped. \<forall>e \<in> set heap. p < e\<rbrakk>
   \<Longrightarrow> sorted_wrt (<) (merge_pops lsts heap popped)"
proof (induction lsts heap popped rule: merge_pops.induct)
  case (1 lsts heap popped)
  show ?case
  proof (cases "heap = []")
    case True
    with 1 show ?thesis by (simp add: merge_pops.simps)
  next
    case False
    obtain e heap' where pop: "(e, heap') = heappop heap"
      by (cases "heappop heap") auto
    note m = heappop_min [OF False pop]
    note g = refill_greater [OF "1.prems"(1) "1.prems"(2) False pop]
    have a: "sorted_wrt (<) (popped @ [e])"
      using "1.prems"(3) "1.prems"(4) m(1) by (auto simp: sorted_wrt_append)
    have b: "\<forall>p \<in> set (popped @ [e]). \<forall>x \<in> set (refill lsts e heap'). p < x"
    proof (intro ballI)
      fix p x assume p: "p \<in> set (popped @ [e])" and x: "x \<in> set (refill lsts e heap')"
      from g x have ex: "e < x" by auto
      from p "1.prems"(4) m(1) have "p \<le> e" by (auto simp: less_imp_le)
      with ex show "p < x" by simp
    qed
    have "sorted_wrt (<) (merge_pops lsts (refill lsts e heap') (popped @ [e]))"
      by (rule "1.IH" [OF False pop "1.prems"(1) heap_inv_refill [OF "1.prems"(2) False pop] a b])
    with False pop [symmetric] show ?thesis
      by (simp add: merge_pops.simps [of lsts heap popped])
  qed
qed

lemma merge_pops_valid:
  "\<lbrakk>heap_inv lsts heap; \<forall>p \<in> set popped. valid_entry lsts p\<rbrakk>
   \<Longrightarrow> \<forall>p \<in> set (merge_pops lsts heap popped). valid_entry lsts p"
proof (induction lsts heap popped rule: merge_pops.induct)
  case (1 lsts heap popped)
  show ?case
  proof (cases "heap = []")
    case True
    with 1 show ?thesis by (simp add: merge_pops.simps)
  next
    case False
    obtain e heap' where pop: "(e, heap') = heappop heap"
      by (cases "heappop heap") auto
    note p = heap_inv_pop [OF "1.prems"(1) False pop]
    have a: "\<forall>p \<in> set (popped @ [e]). valid_entry lsts p"
      using "1.prems"(2) p(1) by auto
    have "\<forall>p \<in> set (merge_pops lsts (refill lsts e heap') (popped @ [e])). valid_entry lsts p"
      by (rule "1.IH" [OF False pop heap_inv_refill [OF "1.prems"(1) False pop] a])
    with False pop [symmetric] show ?thesis
      by (simp add: merge_pops.simps [of lsts heap popped])
  qed
qed

lemma rest_of_refill:
  assumes inv: "heap_inv lsts heap" and ne: "heap \<noteq> []" and pop: "(e, heap') = heappop heap"
  shows "sum_list (map (\<lambda>x. mset (rest_of lsts x)) heap)
           = {#fst e#} + sum_list (map (\<lambda>x. mset (rest_of lsts x)) (refill lsts e heap'))"
proof -
  note m = heappop_min [OF ne pop]
  note p = heap_inv_pop [OF inv ne pop]
  obtain val idx list_idx where t: "e = (val, idx, list_idx)" by (cases e) auto
  from p(1) have i: "idx < length (lsts ! list_idx)" and v: "val = lsts ! list_idx ! idx"
    by (auto simp: t valid_entry_def)
  have total: "sum_list (map (\<lambda>x. mset (rest_of lsts x)) heap)
                 = mset (rest_of lsts e) + sum_list (map (\<lambda>x. mset (rest_of lsts x)) heap')"
    unfolding m(3) by (rule sum_list_map_remove1 [OF m(1)])
  have r: "rest_of lsts e = val # drop (Suc idx) (lsts ! list_idx)"
    unfolding v using i by (simp add: t rest_of_def Cons_nth_drop_Suc)
  show ?thesis
    unfolding total r by (auto simp: t refill_def heappush_def rest_of_def)
qed

lemma merge_pops_mset:
  "heap_inv lsts heap \<Longrightarrow>
     mset (map fst (merge_pops lsts heap popped))
       = mset (map fst popped) + sum_list (map (\<lambda>x. mset (rest_of lsts x)) heap)"
proof (induction lsts heap popped rule: merge_pops.induct)
  case (1 lsts heap popped)
  show ?case
  proof (cases "heap = []")
    case True
    then show ?thesis by (simp add: merge_pops.simps)
  next
    case False
    obtain e heap' where pop: "(e, heap') = heappop heap"
      by (cases "heappop heap") auto
    have "mset (map fst (merge_pops lsts (refill lsts e heap') (popped @ [e])))
            = mset (map fst (popped @ [e]))
              + sum_list (map (\<lambda>x. mset (rest_of lsts x)) (refill lsts e heap'))"
      by (rule "1.IH" [OF False pop heap_inv_refill [OF "1.prems" False pop]])
    also have "\<dots> = mset (map fst popped)
                     + sum_list (map (\<lambda>x. mset (rest_of lsts x)) heap)"
      unfolding rest_of_refill [OF "1.prems" False pop] by simp
    finally show ?thesis
      using False pop [symmetric] by (simp add: merge_pops.simps [of lsts heap popped])
  qed
qed

lemma merge_loop_pops:
  "merge_loop lsts heap (map fst popped) = map fst (merge_pops lsts heap popped)"
proof (induction lsts heap popped rule: merge_pops.induct)
  case (1 lsts heap popped)
  show ?case
  proof (cases "heap = []")
    case True
    then show ?thesis by (simp add: merge_pops.simps merge_loop.simps)
  next
    case False
    obtain e heap' where pop: "(e, heap') = heappop heap"
      by (cases "heappop heap") auto
    from "1.IH" [OF False pop] False pop [symmetric] show ?thesis
      by (simp add: merge_pops.simps [of lsts heap popped]
                    merge_loop.simps [of lsts heap "map fst popped"])
  qed
qed


lemma init_heap_fold:
  "fold (\<lambda>(i, lst) heap. if lst \<noteq> [] then heappush heap (hd lst, 0, i) else heap) ps acc
     = rev (map (\<lambda>(i, lst). (hd lst, 0, i)) (filter (\<lambda>(i, lst). lst \<noteq> []) ps)) @ acc"
  by (induction ps arbitrary: acc) (auto simp: heappush_def)

lemma init_heap_eq:
  "init_heap lsts
     = rev (map (\<lambda>(i, lst). (hd lst, 0, i))
                (filter (\<lambda>(i, lst). lst \<noteq> []) (enumerate 0 lsts)))"
  by (simp add: init_heap_def init_heap_fold)

lemma heap_inv_init: "heap_inv lsts (init_heap lsts)"
proof -
  have v: "\<forall>e \<in> set (init_heap lsts). valid_entry lsts e"
    by (auto simp: init_heap_eq valid_entry_def in_set_enumerate_eq hd_conv_nth)
  have "map source_of (init_heap lsts)
          = rev (map fst (filter (\<lambda>(i, lst). lst \<noteq> []) (enumerate 0 lsts)))"
    by (simp add: init_heap_eq rev_map source_of_def split_def comp_def)
  moreover have "distinct (map fst (filter (\<lambda>(i, lst). lst \<noteq> []) (enumerate 0 lsts)))"
    by (rule distinct_map_filter) simp
  ultimately have "distinct (map source_of (init_heap lsts))" by simp
  with v show ?thesis by (simp add: heap_inv_def)
qed

lemma rest_of_init:
  "sum_list (map (\<lambda>x. mset (rest_of lsts x)) (init_heap lsts)) = sum_list (map mset lsts)"
proof -
  let ?en = "enumerate 0 lsts"
  let ?P = "\<lambda>(i, lst). lst \<noteq> ([] :: int list)"
  have "map (\<lambda>x. mset (rest_of lsts x)) (map (\<lambda>(i, lst). (hd lst, 0, i)) (filter ?P ?en))
          = map (\<lambda>p. mset (snd p)) (filter ?P ?en)"
    by (auto simp: rest_of_def in_set_enumerate_eq)
  then have "sum_list (map (\<lambda>x. mset (rest_of lsts x)) (init_heap lsts))
          = sum_list (map (\<lambda>p. mset (snd p)) (filter ?P ?en))"
    by (simp add: init_heap_eq rev_map [symmetric] sum_list_rev del: map_map)
  also have "\<dots> = sum_list (map (\<lambda>p. mset (snd p)) ?en)"
    by (rule sum_list_map_filter) auto
  also have "\<dots> = sum_list (map mset lsts)"
  proof -
    have a: "map (\<lambda>p. mset (snd p)) ?en = map mset (map snd ?en)"
      by (simp only: map_map comp_def)
    have b: "map mset (map snd ?en) = map mset lsts"
      by (simp only: map_snd_enumerate)
    show ?thesis by (simp only: a b)
  qed
  finally show ?thesis .
qed

lemma pops_values_sorted:
  assumes "sorted_wrt (<) (tr :: entry list)"
  shows "sorted (map fst tr)"
proof -
  have "sorted_wrt (\<lambda>a b. fst a \<le> fst b) tr"
    by (rule sorted_wrt_mono_rel [OF _ assms]) (auto simp: less_prod_def)
  then show ?thesis by (simp add: sorted_map)
qed

lemma merge_loop_sorted:
  assumes "\<forall>l \<in> set lsts. sorted l"
  shows "sorted (merge_loop lsts (init_heap lsts) [])"
proof -
  have "sorted_wrt (<) (merge_pops lsts (init_heap lsts) [])"
    by (rule merge_pops_strict [OF assms heap_inv_init]) auto
  from pops_values_sorted [OF this] merge_loop_pops [of lsts "init_heap lsts" "[]"]
  show ?thesis by simp
qed

lemma merge_loop_mset:
  "mset (merge_loop lsts (init_heap lsts) []) = sum_list (map mset lsts)"
  using merge_loop_pops [of lsts "init_heap lsts" "[]"]
        merge_pops_mset [OF heap_inv_init, of lsts "[]"]
  by (simp add: rest_of_init)

text \<open>
  C3. For sorted input sequences the merge is sorted and has exactly the elements of all the
  sequences together (as a multiset); the merge of no sequence is empty and the merge of a
  single sequence is that sequence.
\<close>

theorem merge_sorted_lists_correct:
  "((\<forall>l \<in> set lsts. sorted l) \<longrightarrow>
      sorted (merge_sorted_lists lsts)
      \<and> mset (merge_sorted_lists lsts) = sum_list (map mset lsts))
   \<and> merge_sorted_lists [] = []
   \<and> merge_sorted_lists [x] = x"
proof (intro conjI impI)
  show "merge_sorted_lists [] = []" and "merge_sorted_lists [x] = x"
    by (simp_all add: merge_sorted_lists_def)
  assume srt: "\<forall>l \<in> set lsts. sorted l"
  consider "lsts = []" | l where "lsts = [l]" | "lsts \<noteq> []" "length lsts \<noteq> 1"
    by (cases lsts) (auto simp: length_Suc_conv)
  then show "sorted (merge_sorted_lists lsts)"
  proof cases
    case 1
    then show ?thesis by (simp add: merge_sorted_lists_def)
  next
    case 2
    with srt show ?thesis by (simp add: merge_sorted_lists_def)
  next
    case 3
    with merge_loop_sorted [OF srt] show ?thesis by (simp add: merge_sorted_lists_def)
  qed
  show "mset (merge_sorted_lists lsts) = sum_list (map mset lsts)"
    using merge_loop_mset [of lsts]
    by (cases lsts) (auto simp: merge_sorted_lists_def length_Suc_conv)
qed


theorem merge_sorted_lists_correct_witness:
  "sorted [2, 9 :: int] \<and> sorted [1, 7 :: int] \<and> sorted [3, 8 :: int]
   \<and> merge_sorted_lists [[2, 9], [1, 7], [3, 8]] = [1, 2, 3, 7, 8, 9]
   \<and> sorted (merge_sorted_lists [[2, 9], [1, 7], [3, 8]])
   \<and> mset (merge_sorted_lists [[2, 9], [1, 7], [3, 8]]) = mset [2, 9, 1, 7, 3, 8]"
  using merge_sorted_lists_correct [of "[[2, 9], [1, 7], [3, 8]]"]
  by (simp add: merge_sorted_lists_def init_heap_def enumerate_eq_zip upt_rec heappush_def
                merge_loop.simps heappop_def refill_def)


text \<open>
  C4, as stated, fails. The heap key is \<^verbatim>\<open>(value, idx, list_idx)\<close>, so among equal values the
  position inside the source is compared before the source index. With the sources
  \<open>[1, 1]\<close> and \<open>[1]\<close>, after the first pop the heap offers \<open>(1, 1, 0)\<close> from source 0 and
  \<open>(1, 0, 1)\<close> from source 1, and the entry of source 1 is popped first.
\<close>

theorem merge_source_order_counterexample:
  "heappop (init_heap [[1, 1], [1]]) = ((1, 0, 0), [(1, 0, 1)])
   \<and> refill [[1, 1], [1]] (1, 0, 0) [(1, 0, 1)] = [(1, 1, 0), (1, 0, 1)]
   \<and> heappop [(1, 1, 0), (1, 0, 1)] = ((1, 0, 1), [(1, 1, 0)])
   \<and> merge_pops [[1, 1], [1]] (init_heap [[1, 1], [1]]) [] = [(1, 0, 0), (1, 0, 1), (1, 1, 0)]"
  by (simp add: init_heap_def enumerate_eq_zip upt_rec heappush_def
                merge_pops.simps heappop_def refill_def)

text \<open>
  C4, amended. For sorted sources, the values are emitted in the order of the popped
  entries, every popped entry \<open>(val, idx, list_idx)\<close> is element \<open>idx\<close> of source \<open>list_idx\<close>,
  and of two popped entries the earlier one has the smaller value or, for equal values,
  the smaller position \<open>idx\<close> or, for equal positions too, the smaller source index.
\<close>

theorem merge_tie_break:
  assumes "\<forall>l \<in> set lsts. sorted l"
  shows "merge_loop lsts (init_heap lsts) [] = map fst (merge_pops lsts (init_heap lsts) [])
       \<and> (\<forall>(val, idx, list_idx) \<in> set (merge_pops lsts (init_heap lsts) []).
             list_idx < length lsts \<and> idx < length (lsts ! list_idx)
             \<and> val = lsts ! list_idx ! idx)
       \<and> (\<forall>p q. p < q \<and> q < length (merge_pops lsts (init_heap lsts) []) \<longrightarrow>
             (case (merge_pops lsts (init_heap lsts) [] ! p,
                    merge_pops lsts (init_heap lsts) [] ! q) of
                ((val, idx, list_idx), (val', idx', list_idx')) \<Rightarrow>
                   val < val' \<or> (val = val' \<and> (idx < idx' \<or> (idx = idx' \<and> list_idx < list_idx')))))"
proof (intro conjI)
  let ?tr = "merge_pops lsts (init_heap lsts) []"
  show "merge_loop lsts (init_heap lsts) [] = map fst ?tr"
    using merge_loop_pops [of lsts "init_heap lsts" "[]"] by simp
  have "\<forall>e \<in> set ?tr. valid_entry lsts e"
    by (rule merge_pops_valid [OF heap_inv_init]) simp
  then show "\<forall>(val, idx, list_idx) \<in> set ?tr.
               list_idx < length lsts \<and> idx < length (lsts ! list_idx)
               \<and> val = lsts ! list_idx ! idx"
    by (auto simp: valid_entry_def)
  have "sorted_wrt (<) ?tr"
    by (rule merge_pops_strict [OF assms heap_inv_init]) auto
  then have lt: "\<And>p q. p < q \<Longrightarrow> q < length ?tr \<Longrightarrow> ?tr ! p < ?tr ! q"
    by (simp add: sorted_wrt_iff_nth_less)
  show "\<forall>p q. p < q \<and> q < length ?tr \<longrightarrow>
          (case (?tr ! p, ?tr ! q) of
             ((val, idx, list_idx), (val', idx', list_idx')) \<Rightarrow>
                val < val' \<or> (val = val' \<and> (idx < idx' \<or> (idx = idx' \<and> list_idx < list_idx'))))"
  proof (intro allI impI)
    fix p q assume "p < q \<and> q < length ?tr"
    then have "?tr ! p < ?tr ! q" using lt by blast
    then show "case (?tr ! p, ?tr ! q) of
             ((val, idx, list_idx), (val', idx', list_idx')) \<Rightarrow>
                val < val' \<or> (val = val' \<and> (idx < idx' \<or> (idx = idx' \<and> list_idx < list_idx')))"
      by (cases "?tr ! p"; cases "?tr ! q") (auto simp: less_prod_def)
  qed
qed

theorem merge_tie_break_witness:
  "sorted [1, 1 :: int] \<and> sorted [1 :: int]
   \<and> merge_pops [[1, 1], [1]] (init_heap [[1, 1], [1]]) [] = [(1, 0, 0), (1, 0, 1), (1, 1, 0)]
   \<and> merge_loop [[1, 1], [1]] (init_heap [[1, 1], [1]]) [] = [1, 1, 1]"
  using merge_tie_break [of "[[1, 1], [1]]"]
  by (simp add: init_heap_def enumerate_eq_zip upt_rec heappush_def
                merge_pops.simps heappop_def refill_def)


section \<open>Properties of the registry\<close>

lemma same_key_iff: "same_key s ip_v port_v = (key_of s = (canon ip_v, canon port_v))"
  by (auto simp: same_key_def py_eq_def key_of_def)

lemma register_loop_keys:
  "set (map key_of (register_loop svs new)) = insert (key_of new) (set (map key_of svs))"
  by (induction svs) (auto simp: same_key_iff key_of_def)

lemma register_loop_distinct:
  "distinct (map key_of svs) \<Longrightarrow> distinct (map key_of (register_loop svs new))"
proof (induction svs)
  case Nil
  show ?case by simp
next
  case (Cons s svs)
  have k: "set (map key_of (register_loop svs new)) = insert (key_of new) (set (map key_of svs))"
    by (rule register_loop_keys)
  show ?case
  proof (cases "same_key s (ip new) (port new)")
    case True
    then have "key_of s = key_of new" by (simp add: same_key_iff key_of_def)
    with Cons.prems True show ?thesis by simp
  next
    case False
    then have "key_of s \<noteq> key_of new" by (simp add: same_key_iff key_of_def)
    with Cons False k show ?thesis by auto
  qed
qed

lemma register_server_distinct:
  "distinct (map key_of svs) \<Longrightarrow> distinct (map key_of (snd (register_server d t1 t2 svs)))"
  by (simp add: register_server_def Let_def register_loop_distinct)

text \<open>
  C10. A request in which \<open>ip\<close>, \<open>port\<close> or \<open>name\<close> is missing or false as a condition
  (\<^verbatim>\<open>None\<close>, the empty string, 0) gets the missing-fields error and the registry is
  unchanged; in particular port 0 gets this error, whatever the other fields are, and
  never reaches the range check.
\<close>

theorem register_missing_fields:
  "(\<not> truthy (dict_get d ''ip'') \<or> \<not> truthy (dict_get d ''port'')
      \<or> \<not> truthy (dict_get d ''name'')
      \<longrightarrow> register_server d t1 t2 svs = (MissingFields, svs))
   \<and> (dict_get d ''port'' = JInt 0 \<longrightarrow> register_server d t1 t2 svs = (MissingFields, svs))"
  by (auto simp: register_server_def Let_def)

theorem register_missing_fields_witness:
  "\<not> truthy (dict_get [''ip'' \<mapsto> JStr ''10.0.0.5'', ''port'' \<mapsto> JInt 8000, ''name'' \<mapsto> JStr []] ''name'')
   \<and> register_server [''ip'' \<mapsto> JStr ''10.0.0.5'', ''port'' \<mapsto> JInt 8000, ''name'' \<mapsto> JStr []] 5 5 []
       = (MissingFields, [])
   \<and> dict_get [''ip'' \<mapsto> JStr ''10.0.0.5'', ''port'' \<mapsto> JInt 0, ''name'' \<mapsto> JStr ''X''] ''port'' = JInt 0
   \<and> register_server [''ip'' \<mapsto> JStr ''10.0.0.5'', ''port'' \<mapsto> JInt 0, ''name'' \<mapsto> JStr ''X''] 5 5 []
       = (MissingFields, [])"
  using register_missing_fields
          [of "[''ip'' \<mapsto> JStr ''10.0.0.5'', ''port'' \<mapsto> JInt 8000, ''name'' \<mapsto> JStr []]" 5 5 "[]"]
        register_missing_fields
          [of "[''ip'' \<mapsto> JStr ''10.0.0.5'', ''port'' \<mapsto> JInt 0, ''name'' \<mapsto> JStr ''X'']" 5 5 "[]"]
  by (simp add: dict_get_def)

text \<open>
  C6, as stated, fails: port 0 is not an integer of \<open>[1, 65535]\<close>, and the reply is the
  missing-fields error, not the invalid-port error.
\<close>

theorem register_port_zero_counterexample:
  "register_server [''ip'' \<mapsto> JStr ''10.0.0.5'', ''port'' \<mapsto> JInt 0, ''name'' \<mapsto> JStr ''X''] 5 5 []
     = (MissingFields, [])
   \<and> fst (register_server [''ip'' \<mapsto> JStr ''10.0.0.5'', ''port'' \<mapsto> JInt 0, ''name'' \<mapsto> JStr ''X''] 5 5 [])
     \<noteq> InvalidPort"
  by (simp add: register_server_def dict_get_def)

text \<open>
  C6, amended. When \<open>ip\<close>, \<open>port\<close> and \<open>name\<close> are all present and true as conditions, and
  the port is not a Python \<^verbatim>\<open>int\<close> of \<open>[1, 65535]\<close> (for example 70000, a string or a
  float), the reply is the invalid-port error and the registry is unchanged.
\<close>

theorem register_invalid_port:
  assumes "truthy (dict_get d ''ip'')" and "truthy (dict_get d ''port'')"
    and "truthy (dict_get d ''name'')"
    and "\<not> (isinstance_int (dict_get d ''port'')
             \<and> 1 \<le> int_value (dict_get d ''port'') \<and> int_value (dict_get d ''port'') \<le> 65535)"
  shows "register_server d t1 t2 svs = (InvalidPort, svs)"
  using assms by (auto simp: register_server_def Let_def)

theorem register_invalid_port_witness:
  "truthy (dict_get [''ip'' \<mapsto> JStr ''10.0.0.5'', ''port'' \<mapsto> JInt 70000, ''name'' \<mapsto> JStr ''X''] ''ip'')
   \<and> truthy (dict_get [''ip'' \<mapsto> JStr ''10.0.0.5'', ''port'' \<mapsto> JInt 70000, ''name'' \<mapsto> JStr ''X''] ''port'')
   \<and> truthy (dict_get [''ip'' \<mapsto> JStr ''10.0.0.5'', ''port'' \<mapsto> JInt 70000, ''name'' \<mapsto> JStr ''X''] ''name'')
   \<and> \<not> (int_value (dict_get [''ip'' \<mapsto> JStr ''10.0.0.5'', ''port'' \<mapsto> JInt 70000, ''name'' \<mapsto> JStr ''X''] ''port'') \<le> 65535)
   \<and> register_server [''ip'' \<mapsto> JStr ''10.0.0.5'', ''port'' \<mapsto> JInt 70000, ''name'' \<mapsto> JStr ''X''] 5 5 []
       = (InvalidPort, [])"
  using register_invalid_port
          [of "[''ip'' \<mapsto> JStr ''10.0.0.5'', ''port'' \<mapsto> JInt 70000, ''name'' \<mapsto> JStr ''X'']" 5 5 "[]"]
  by (simp add: dict_get_def)

text \<open>
  C5: the code at a first registration and at a registration of a key that exists. The
  record is appended, respectively replaced in place, with \<open>active = True\<close>,
  \<open>total_processed = 0\<close> and the new name, but its \<open>last_response_time\<close> is the reading of
  the clock (here 1700000000), not 0.
\<close>

theorem register_last_response_time:
  "register_server [''ip'' \<mapsto> JStr ''10.0.0.5'', ''port'' \<mapsto> JInt 9000, ''name'' \<mapsto> JStr ''W1'']
       1700000000 1700000000 []
     = (Registered,
        [\<lparr>ip = JStr ''10.0.0.5'', port = JInt 9000, name = JStr ''W1'', active = True,
          last_response_time = 1700000000, last_check_time = 1700000000,
          total_processed = 0\<rparr>])
   \<and> register_server [''ip'' \<mapsto> JStr ''10.0.0.5'', ''port'' \<mapsto> JInt 9000, ''name'' \<mapsto> JStr ''W2'']
       1700000000 1700000000
       [\<lparr>ip = JStr ''10.0.0.5'', port = JInt 9000, name = JStr ''W1'', active = False,
         last_response_time = 2, last_check_time = 1600000000, total_processed = 40\<rparr>]
     = (Registered,
        [\<lparr>ip = JStr ''10.0.0.5'', port = JInt 9000, name = JStr ''W2'', active = True,
          last_response_time = 1700000000, last_check_time = 1700000000,
          total_processed = 0\<rparr>])"
  by (simp add: register_server_def dict_get_def same_key_def py_eq_def)

theorem register_last_response_time_witness:
  "last_response_time
     (hd (snd (register_server
                 [''ip'' \<mapsto> JStr ''10.0.0.5'', ''port'' \<mapsto> JInt 9000, ''name'' \<mapsto> JStr ''W1'']
                 1700000000 1700000000 []))) = 1700000000
   \<and> last_response_time
     (hd (snd (register_server
                 [''ip'' \<mapsto> JStr ''10.0.0.5'', ''port'' \<mapsto> JInt 9000, ''name'' \<mapsto> JStr ''W1'']
                 1700000000 1700000000 []))) \<noteq> 0"
  using register_last_response_time by simp


section \<open>Properties of the dispatcher\<close>

lemma update_first_keys:
  "(\<And>s. key_of (f s) = key_of s) \<Longrightarrow> map key_of (update_first P f svs) = map key_of svs"
  by (induction svs) auto

lemma update_server_stats_keys:
  "map key_of (update_server_stats svs i p t n) = map key_of svs"
  unfolding update_server_stats_def by (rule update_first_keys) (simp add: key_of_def)

lemma mark_server_inactive_keys:
  "map key_of (mark_server_inactive svs i p) = map key_of svs"
  unfolding mark_server_inactive_def by (rule update_first_keys) (simp add: key_of_def)

lemma send_chunk_keys:
  "map key_of (snd (send_chunk_to_server net svs srv chunk)) = map key_of svs"
  by (simp add: send_chunk_to_server_def update_server_stats_keys mark_server_inactive_keys
           split: outcome.split)


lemma send_chunk_result:
  "fst (send_chunk_to_server net svs srv chunk)
     = \<lparr>server = srv, data = reply_of (net srv chunk), success = delivered (net srv chunk),
        error_message = error_message (fst (send_chunk_to_server net svs srv chunk)),
        processing_time = processing_time (fst (send_chunk_to_server net svs srv chunk))\<rparr>"
  by (simp add: send_chunk_to_server_def split: outcome.split)

lemma run_workers_results:
  "map server (fst (run_workers net jobs svs)) = map fst jobs
   \<and> map data (fst (run_workers net jobs svs)) = map (\<lambda>(srv, chunk). reply_of (net srv chunk)) jobs
   \<and> map success (fst (run_workers net jobs svs))
       = map (\<lambda>(srv, chunk). delivered (net srv chunk)) jobs"
proof (induction jobs arbitrary: svs)
  case Nil
  show ?case by simp
next
  case (Cons job jobs)
  obtain srv chunk where j: "job = (srv, chunk)" by (cases job) auto
  obtain r svs1 where s: "send_chunk_to_server net svs srv chunk = (r, svs1)"
    by (cases "send_chunk_to_server net svs srv chunk") auto
  obtain rs svs2 where w: "run_workers net jobs svs1 = (rs, svs2)"
    by (cases "run_workers net jobs svs1") auto
  from send_chunk_result [of net svs srv chunk] s
  have r: "server r = srv" "data r = reply_of (net srv chunk)"
          "success r = delivered (net srv chunk)"
    by (auto simp: ServerResult.defs) (metis ServerResult.select_convs)+
  from Cons [of svs1] w r show ?case
    by (simp add: j s)
qed

lemma collect_fold:
  "fold collect_step rs (a, b, c)
     = (a @ map data (filter success rs),
        b @ map (\<lambda>r. name (server r)) (filter (\<lambda>r. \<not> success r) rs),
        c + int (length (filter (\<lambda>r. \<not> success r) rs)))"
  by (induction rs arbitrary: a b c) (auto simp: collect_step_def)

lemma filter_map_parallel:
  "map p xs = map q ys \<Longrightarrow> map f xs = map g ys
     \<Longrightarrow> map f (filter p xs) = map g (filter q ys)"
proof (induction xs arbitrary: ys)
  case Nil
  then show ?case by simp
next
  case (Cons x xs)
  then obtain y ys' where ys: "ys = y # ys'" by (cases ys) auto
  with Cons.prems have "map p xs = map q ys'" "map f xs = map g ys'" "p x = q y" "f x = g y"
    by auto
  with Cons.IH [of ys'] show ?case by (simp add: ys)
qed

lemma collect_run_workers:
  "fold collect_step (fst (run_workers net jobs svs)) ([], [], c)
     = (replies net jobs, map (\<lambda>(srv, chunk). name srv) (failed_jobs net jobs),
        c + int (length (failed_jobs net jobs)))"
proof -
  let ?rs = "fst (run_workers net jobs svs)"
  note r = run_workers_results [of net jobs svs]
  have a: "map data (filter success ?rs) = replies net jobs"
    unfolding replies_def using r by (intro filter_map_parallel) auto
  have ns: "map (\<lambda>r. \<not> success r) ?rs = map (\<lambda>(srv, chunk). \<not> delivered (net srv chunk)) jobs"
  proof -
    have "map (\<lambda>r. \<not> success r) ?rs = map Not (map success ?rs)" by simp
    also have "\<dots> = map Not (map (\<lambda>(srv, chunk). delivered (net srv chunk)) jobs)"
      using r by simp
    finally show ?thesis by (simp add: split_def comp_def)
  qed
  have nm: "map (\<lambda>r. name (server r)) ?rs = map (\<lambda>(srv, chunk). name srv) jobs"
  proof -
    have "map (\<lambda>r. name (server r)) ?rs = map name (map server ?rs)" by simp
    also have "\<dots> = map name (map fst jobs)" using r by simp
    finally show ?thesis by (simp add: split_def comp_def)
  qed
  have b: "map (\<lambda>r. name (server r)) (filter (\<lambda>r. \<not> success r) ?rs)
             = map (\<lambda>(srv, chunk). name srv) (failed_jobs net jobs)"
    unfolding failed_jobs_def by (rule filter_map_parallel [OF ns nm])
  from b have "length (map (\<lambda>r. name (server r)) (filter (\<lambda>r. \<not> success r) ?rs))
                 = length (map (\<lambda>(srv, chunk). name srv) (failed_jobs net jobs))"
    by simp
  then have c: "length (filter (\<lambda>r. \<not> success r) ?rs) = length (failed_jobs net jobs)"
    by simp
  show ?thesis
    by (simp add: collect_fold a b c)
qed

lemma process_distributed_active:
  assumes "update_servers_status (is_server_alive w) (now w) (servers m) = (svs, Some counts)"
    and "get_active_servers svs \<noteq> []"
    and "jobs = zip (get_active_servers svs)
                    (make_chunks numbers (length (get_active_servers svs)))"
    and "m3 = m\<lparr>servers := snd (run_workers (network w) jobs svs),
                 sorter_stats := (sorter_stats m)
                   \<lparr>numbers_sorted := numbers_sorted (sorter_stats m) + int (length numbers),
                    total_errors := total_errors (sorter_stats m)
                                      + int (length (failed_jobs (network w) jobs))\<rparr>\<rparr>"
    and "names = map (\<lambda>(srv, chunk). name srv) (failed_jobs (network w) jobs)"
  shows "process_distributed w numbers m =
           (if replies (network w) jobs = []
            then (if join_ok names then send_and_return w (AllFailed names) False m3
                  else on_exception w m3)
            else if names \<noteq> [] \<and> \<not> join_ok names then on_exception w m3
            else send_and_return w (Sorted (merge_sorted_lists (replies (network w) jobs)))
                   True m3)"
proof -
  obtain rs svs' where rw: "run_workers (network w) jobs svs = (rs, svs')"
    by (cases "run_workers (network w) jobs svs") auto
  from collect_run_workers [of "network w" jobs svs "total_errors (sorter_stats m)"] rw
  have c: "fold collect_step rs ([], [], total_errors (sorter_stats m))
             = (replies (network w) jobs,
                map (\<lambda>(srv, chunk). name srv) (failed_jobs (network w) jobs),
                total_errors (sorter_stats m) + int (length (failed_jobs (network w) jobs)))"
    by simp
  from assms(1) assms(2) show ?thesis
    unfolding process_distributed_def
    by (simp add: Let_def assms(3) [symmetric] rw c assms(4) assms(5))
qed



lemma same_key_of: "same_key s (ip srv) (port srv) = (key_of s = key_of srv)"
  by (simp add: same_key_iff key_of_def)








lemma jobs_facts:
  assumes "jobs = zip (get_active_servers svs)
                      (make_chunks numbers (length (get_active_servers svs)))"
  shows "map fst jobs = get_active_servers svs"
    and "map snd jobs = make_chunks numbers (length (get_active_servers svs))"
    and "length jobs = length (get_active_servers svs)"
  unfolding assms by (simp_all add: make_chunks_def)


lemma merge_sorted_lists_sorted:
  "\<forall>l \<in> set lsts. sorted l \<Longrightarrow> sorted (merge_sorted_lists lsts)"
  using merge_loop_sorted [of lsts]
  by (cases lsts) (auto simp: merge_sorted_lists_def length_Suc_conv)

lemma merge_sorted_lists_mset:
  "mset (merge_sorted_lists lsts) = sum_list (map mset lsts)"
  using merge_loop_mset [of lsts]
  by (cases lsts) (auto simp: merge_sorted_lists_def length_Suc_conv)

lemma send_and_return_ok:
  "client_ok w \<Longrightarrow> send_and_return w msg result m = (result, [msg], m)"
  by (simp add: send_and_return_def)

text \<open>
  C9. When the probe leaves at least one active worker, \<^verbatim>\<open>numbers_sorted\<close> grows by the length
  of the input whatever the workers do afterwards and whether or not the client can be
  answered; in particular it grows when every worker fails and the call returns
  \<^verbatim>\<open>False\<close>: it counts the numbers attempted.
\<close>

theorem numbers_sorted_counts_attempts:
  assumes "update_servers_status (is_server_alive w) (now w) (servers m) = (svs, Some counts)"
    and "get_active_servers svs \<noteq> []"
  shows "numbers_sorted (sorter_stats (snd (snd (process_distributed w numbers m))))
           = numbers_sorted (sorter_stats m) + int (length numbers)
       \<and> ((\<forall>srv chunk. \<not> delivered (network w srv chunk))
            \<longrightarrow> \<not> fst (process_distributed w numbers m))"
proof -
  define jobs where "jobs = zip (get_active_servers svs)
                                (make_chunks numbers (length (get_active_servers svs)))"
  note eq = process_distributed_active [OF assms jobs_def refl refl]
  have a: "numbers_sorted (sorter_stats (snd (snd (process_distributed w numbers m))))
             = numbers_sorted (sorter_stats m) + int (length numbers)"
    unfolding eq by (simp add: send_and_return_def on_exception_def)
  have b: "\<not> fst (process_distributed w numbers m)"
    if "\<forall>srv chunk. \<not> delivered (network w srv chunk)"
  proof -
    from that have "replies (network w) jobs = []"
      by (simp add: replies_def split_def)
    then show ?thesis
      unfolding eq by (simp add: send_and_return_def on_exception_def)
  qed
  from a b show ?thesis by blast
qed

text \<open>
  C1. With at least one active worker, when every active worker answers each partition
  with a sorted permutation of it and the client can be answered, the dispatch returns
  \<^verbatim>\<open>True\<close> and sends one output, which is sorted and has exactly the elements of the input.
\<close>

theorem dispatch_sorts:
  assumes probe: "update_servers_status (is_server_alive w) (now w) (servers m) = (svs, Some counts)"
    and act: "get_active_servers svs \<noteq> []"
    and honest: "\<forall>srv \<in> set (get_active_servers svs). \<forall>chunk.
                   \<exists>t xs. network w srv chunk = Replied t xs \<and> sorted xs \<and> mset xs = mset chunk"
    and client: "client_ok w"
  shows "\<exists>out m'. process_distributed w numbers m = (True, [Sorted out], m')
                  \<and> sorted out \<and> mset out = mset numbers"
proof -
  define jobs where "jobs = zip (get_active_servers svs)
                                (make_chunks numbers (length (get_active_servers svs)))"
  note jf = jobs_facts [OF jobs_def]
  note eq = process_distributed_active [OF probe act jobs_def refl refl]
  have h: "\<exists>t xs. network w srv chunk = Replied t xs \<and> sorted xs \<and> mset xs = mset chunk"
    if "(srv, chunk) \<in> set jobs" for srv chunk
  proof -
    from that have "srv \<in> set (map fst jobs)" by force
    with honest show ?thesis unfolding jf(1) by blast
  qed
  have all: "filter (\<lambda>(srv, chunk). delivered (network w srv chunk)) jobs = jobs"
    using h by (intro filter_True) force
  then have r: "replies (network w) jobs
                  = map (\<lambda>(srv, chunk). reply_of (network w srv chunk)) jobs"
    by (simp add: replies_def)
  from act jf(3) have ne: "replies (network w) jobs \<noteq> []"
    unfolding r by auto
  have nf: "failed_jobs (network w) jobs = []"
    unfolding failed_jobs_def using h by (force simp: filter_empty_conv)
  have srt: "\<forall>l \<in> set (replies (network w) jobs). sorted l"
    unfolding r using h by force
  have "map mset (replies (network w) jobs) = map (\<lambda>j. mset (snd j)) jobs"
  proof -
    have "mset (reply_of (network w (fst j) (snd j))) = mset (snd j)" if "j \<in> set jobs" for j
      using h [of "fst j" "snd j"] that by auto
    then show ?thesis unfolding r by (simp add: split_def)
  qed
  also have "\<dots> = map mset (map snd jobs)" by simp
  finally have "sum_list (map mset (replies (network w) jobs))
                  = mset (concat (make_chunks numbers (length (get_active_servers svs))))"
    unfolding jf(2) by (simp only: mset_concat)
  moreover from act have "1 \<le> length (get_active_servers svs)"
    by (cases "get_active_servers svs") auto
  ultimately have ms: "sum_list (map mset (replies (network w) jobs)) = mset numbers"
    by (simp add: concat_make_chunks)
  show ?thesis
    unfolding eq using ne client
    by (simp add: nf send_and_return_ok merge_sorted_lists_sorted [OF srt]
                  merge_sorted_lists_mset ms)
qed




text \<open>
  The order in which the threads run does not matter: in a registry with distinct keys,
  each record is changed by the job of its own key only, so every order of the same jobs
  leaves the same registry.
\<close>

lemma update_first_map:
  assumes "\<And>s. key_of (f s) = key_of s"
  shows "distinct (map key_of svs) \<Longrightarrow>
           update_first (\<lambda>s. key_of s = k) f svs
             = map (\<lambda>s. if key_of s = k then f s else s) svs"
proof (induction svs)
  case Nil
  show ?case by simp
next
  case (Cons s svs)
  show ?case
  proof (cases "key_of s = k")
    case True
    with Cons.prems have "\<And>x. x \<in> set svs \<Longrightarrow> key_of x \<noteq> k"
      by (auto simp: image_iff)
    then have "map (\<lambda>s. if key_of s = k then f s else s) svs = svs"
      by (intro map_idI) simp
    with True show ?thesis by simp
  next
    case False
    with Cons show ?thesis by simp
  qed
qed

lemma send_chunk_map:
  assumes "distinct (map key_of svs)"
  shows "snd (send_chunk_to_server net svs srv chunk)
           = map (\<lambda>s. if key_of s = key_of srv
                       then effect (net srv chunk) (length chunk) s else s) svs"
proof -
  have st: "update_server_stats svs (ip srv) (port srv) t n
              = map (\<lambda>s. if key_of s = key_of srv
                          then s\<lparr>last_response_time := t,
                                 total_processed := total_processed s + int n\<rparr>
                          else s) svs" for t n
    unfolding update_server_stats_def same_key_of
    by (rule update_first_map [OF _ assms]) (simp add: key_of_def)
  have mk: "distinct (map key_of xs) \<Longrightarrow>
            mark_server_inactive xs (ip srv) (port srv)
              = map (\<lambda>s. if key_of s = key_of srv then s\<lparr>active := False\<rparr> else s) xs" for xs
    unfolding mark_server_inactive_def same_key_of
    by (rule update_first_map) (simp_all add: key_of_def)
  show ?thesis
  proof (cases "net srv chunk")
    case (Replied t xs)
    then show ?thesis by (simp add: send_chunk_to_server_def st)
  next
    case (Garbage msg t t')
    have "distinct (map key_of (update_server_stats svs (ip srv) (port srv) t (length chunk)))"
      using assms by (simp add: update_server_stats_keys)
    from mk [OF this] Garbage show ?thesis
      by (simp add: send_chunk_to_server_def) (simp add: st key_of_def)
  next
    case (Failed msg t)
    with mk [OF assms] show ?thesis by (simp add: send_chunk_to_server_def)
  qed
qed

lemma effect_key: "key_of (effect out n s) = key_of s"
  by (cases out) (simp_all add: key_of_def)

lemma run_workers_map:
  "distinct (map key_of svs) \<Longrightarrow> distinct (map (\<lambda>j. key_of (fst j)) jobs) \<Longrightarrow>
     snd (run_workers net jobs svs)
       = map (\<lambda>s. case job_of jobs (key_of s) of
                     None \<Rightarrow> s
                   | Some (srv, chunk) \<Rightarrow> effect (net srv chunk) (length chunk) s) svs"
proof (induction jobs arbitrary: svs)
  case Nil
  show ?case by (simp add: job_of_def)
next
  case (Cons job jobs)
  obtain srv chunk where j: "job = (srv, chunk)" by (cases job) auto
  let ?svs1 = "snd (send_chunk_to_server net svs srv chunk)"
  have d1: "distinct (map key_of ?svs1)"
    using Cons.prems(1) by (simp add: send_chunk_keys)
  from Cons.prems(2) have dj: "distinct (map (\<lambda>j. key_of (fst j)) jobs)"
    and fresh: "job_of jobs (key_of srv) = None"
    by (auto simp: j job_of_def map_of_eq_None_iff image_iff)
  have "snd (run_workers net (job # jobs) svs) = snd (run_workers net jobs ?svs1)"
    by (simp add: j split: prod.split)
  also have "\<dots> = map (\<lambda>s. case job_of jobs (key_of s) of
                     None \<Rightarrow> s
                   | Some (srv, chunk) \<Rightarrow> effect (net srv chunk) (length chunk) s) ?svs1"
    by (rule Cons.IH [OF d1 dj])
  also have "\<dots> = map (\<lambda>s. case job_of (job # jobs) (key_of s) of
                     None \<Rightarrow> s
                   | Some (srv, chunk) \<Rightarrow> effect (net srv chunk) (length chunk) s) svs"
  proof -
    have head: "job_of (job # jobs) k
                  = (if k = key_of srv then Some (srv, chunk) else job_of jobs k)" for k
      by (simp add: job_of_def j)
    have "(case job_of jobs (key_of (if key_of s = key_of srv
                                     then effect (net srv chunk) (length chunk) s else s)) of
             None \<Rightarrow> (if key_of s = key_of srv
                      then effect (net srv chunk) (length chunk) s else s)
           | Some (srv', chunk') \<Rightarrow>
               effect (net srv' chunk') (length chunk')
                 (if key_of s = key_of srv
                  then effect (net srv chunk) (length chunk) s else s))
          = (case job_of (job # jobs) (key_of s) of
               None \<Rightarrow> s
             | Some (srv', chunk') \<Rightarrow> effect (net srv' chunk') (length chunk') s)" for s
    proof (cases "key_of s = key_of srv")
      case True
      then show ?thesis by (simp add: head effect_key fresh)
    next
      case False
      then show ?thesis by (simp add: head)
    qed
    then show ?thesis
      unfolding send_chunk_map [OF Cons.prems(1)] by (simp add: comp_def)
  qed
  finally show ?case .
qed

lemma run_workers_order:
  assumes "distinct (map key_of svs)" and "distinct (map (\<lambda>j. key_of (fst j)) jobs)"
    and "mset jobs' = mset jobs"
  shows "snd (run_workers net jobs' svs) = snd (run_workers net jobs svs)"
proof -
  let ?kv = "map (\<lambda>j. (key_of (fst j), j))"
  from assms(3) have m: "mset (map (\<lambda>j. key_of (fst j)) jobs') = mset (map (\<lambda>j. key_of (fst j)) jobs)"
    by simp
  from mset_eq_imp_distinct_iff [OF m] assms(2)
  have d': "distinct (map (\<lambda>j. key_of (fst j)) jobs')"
    by simp
  from assms(3) have "mset (?kv jobs') = mset (?kv jobs)"
    by simp
  then have "set (?kv jobs') = set (?kv jobs)"
    by (rule mset_eq_setD)
  moreover have "distinct (map fst (?kv jobs'))" "distinct (map fst (?kv jobs))"
    using d' assms(2) by (simp_all add: comp_def)
  ultimately have "map_of (?kv jobs') = map_of (?kv jobs)"
    by (simp add: map_of_inject_set)
  then have "job_of jobs' = job_of jobs" by (simp add: job_of_def)
  with run_workers_map [OF assms(1) d'] run_workers_map [OF assms(1) assms(2)]
  show ?thesis by simp
qed


section \<open>Properties of the client handler\<close>

lemma process_distributed_counters:
  "total_operations (snd (snd (process_distributed w numbers m))) = total_operations m
   \<and> successful_operations (snd (snd (process_distributed w numbers m)))
       = successful_operations m"
  by (simp add: process_distributed_def send_and_return_def on_exception_def Let_def
           split: prod.split option.split)

lemma handler_dispatch:
  assumes "update_servers_status (is_server_alive (first ses)) (now (first ses)) (servers m)
             = (svs, Some (ac, tc))"
    and "ac \<noteq> 0" and "client_ok (first ses)" and "input ses = Payload n (Numbers numbers)"
    and "m2 = m\<lparr>servers := svs,
                 sorter_stats := (sorter_stats m)
                   \<lparr>bytes_processed := bytes_processed (sorter_stats m) + int n\<rparr>\<rparr>"
  shows "total_operations (snd (handle_distributed_sort ses m)) = total_operations m + 1"
    and "successful_operations (snd (handle_distributed_sort ses m))
           = successful_operations m
             + (if fst (process_distributed (second ses) numbers m2) then 1 else 0)"
proof -
  obtain ok msgs m3 where pd: "process_distributed (second ses) numbers m2 = (ok, msgs, m3)"
    by (cases "process_distributed (second ses) numbers m2") auto
  from process_distributed_counters [of "second ses" numbers m2] pd
  have c: "total_operations m3 = total_operations m2"
          "successful_operations m3 = successful_operations m2"
    by simp_all
  have h: "snd (handle_distributed_sort ses m)
             = (if ok then m3\<lparr>total_operations := total_operations m3 + 1,
                              successful_operations := successful_operations m3 + 1\<rparr>
                else m3\<lparr>total_operations := total_operations m3 + 1\<rparr>)"
    using assms(1-4) pd unfolding handle_distributed_sort_def
    by (simp add: Let_def assms(5) [symmetric])
  from c show "total_operations (snd (handle_distributed_sort ses m)) = total_operations m + 1"
    unfolding h by (simp add: assms(5))
  from c pd show "successful_operations (snd (handle_distributed_sort ses m))
           = successful_operations m
             + (if fst (process_distributed (second ses) numbers m2) then 1 else 0)"
    unfolding h by (simp add: assms(5))
qed

lemma handler_exception_counters:
  "total_operations (snd (handler_exception w m)) = total_operations m
   \<and> successful_operations (snd (handler_exception w m)) = successful_operations m"
  by (simp add: handler_exception_def)

lemma handler_step:
  "total_operations m \<le> total_operations (snd (handle_distributed_sort ses m))
   \<and> successful_operations m \<le> successful_operations (snd (handle_distributed_sort ses m))
   \<and> successful_operations (snd (handle_distributed_sort ses m))
         - successful_operations m
       \<le> total_operations (snd (handle_distributed_sort ses m)) - total_operations m"
proof -
  obtain svs r where u:
    "update_servers_status (is_server_alive (first ses)) (now (first ses)) (servers m) = (svs, r)"
    by (cases "update_servers_status (is_server_alive (first ses)) (now (first ses)) (servers m)")
       auto
  show ?thesis
  proof (cases r)
    case None
    with u show ?thesis
      by (simp add: handle_distributed_sort_def handler_exception_def)
  next
    case (Some counts)
    obtain ac tc where counts: "counts = (ac, tc)" by (cases counts) auto
    note u' = u [unfolded Some counts]
    show ?thesis
    proof (cases "ac \<noteq> 0 \<and> client_ok (first ses)
                  \<and> (\<exists>n numbers. input ses = Payload n (Numbers numbers))")
      case True
      then obtain n numbers where i: "input ses = Payload n (Numbers numbers)" by auto
      from True handler_dispatch [OF u' _ _ i refl] show ?thesis by simp
    next
      case False
      with u' show ?thesis
        by (auto simp: handle_distributed_sort_def handler_exception_def Let_def
                 split: client_input.split payload.split)
    qed
  qed
qed

lemma run_sessions_append:
  "run_sessions (xs @ ys) m = run_sessions ys (run_sessions xs m)"
  by (simp add: run_sessions_def)

lemma run_sessions_step:
  "total_operations m \<le> total_operations (run_sessions sessions m)
   \<and> successful_operations m \<le> successful_operations (run_sessions sessions m)
   \<and> successful_operations (run_sessions sessions m) - successful_operations m
       \<le> total_operations (run_sessions sessions m) - total_operations m"
proof (induction sessions arbitrary: m)
  case Nil
  show ?case by (simp add: run_sessions_def)
next
  case (Cons ses sessions)
  have "run_sessions (ses # sessions) m
          = run_sessions sessions (snd (handle_distributed_sort ses m))"
    by (simp add: run_sessions_def)
  with Cons [of "snd (handle_distributed_sort ses m)"] handler_step [of m ses]
  show ?case by simp
qed

text \<open>
  C8. When \<^verbatim>\<open>handle_distributed_sort\<close> reaches the dispatcher, \<^verbatim>\<open>total_operations\<close> grows by
  one whatever the dispatcher returns and \<^verbatim>\<open>successful_operations\<close> grows by one exactly
  when it returns \<^verbatim>\<open>True\<close>. In every session both counters do not decrease and
  \<open>successful_operations \<le> total_operations\<close> is preserved; so it holds after every run of
  sessions from the initial state, and the counters of a run never exceed those of a
  longer run.
\<close>

theorem dispatch_counters:
  "(\<forall>svs ac tc n numbers.
       update_servers_status (is_server_alive (first ses)) (now (first ses)) (servers m)
         = (svs, Some (ac, tc))
       \<and> ac \<noteq> 0 \<and> client_ok (first ses) \<and> input ses = Payload n (Numbers numbers)
       \<longrightarrow> total_operations (snd (handle_distributed_sort ses m)) = total_operations m + 1
         \<and> successful_operations (snd (handle_distributed_sort ses m))
             = successful_operations m
               + (if fst (process_distributed (second ses) numbers
                            (m\<lparr>servers := svs,
                               sorter_stats := (sorter_stats m)
                                 \<lparr>bytes_processed :=
                                    bytes_processed (sorter_stats m) + int n\<rparr>\<rparr>))
                  then 1 else 0))
   \<and> total_operations m \<le> total_operations (snd (handle_distributed_sort ses m))
   \<and> successful_operations m \<le> successful_operations (snd (handle_distributed_sort ses m))
   \<and> (successful_operations m \<le> total_operations m
        \<longrightarrow> successful_operations (snd (handle_distributed_sort ses m))
              \<le> total_operations (snd (handle_distributed_sort ses m)))
   \<and> successful_operations (run_sessions sessions initial)
        \<le> total_operations (run_sessions sessions initial)
   \<and> total_operations (run_sessions sessions initial)
        \<le> total_operations (run_sessions (sessions @ later) initial)
   \<and> successful_operations (run_sessions sessions initial)
        \<le> successful_operations (run_sessions (sessions @ later) initial)"
proof (intro conjI allI impI)
  fix svs ac tc n numbers
  assume a: "update_servers_status (is_server_alive (first ses)) (now (first ses)) (servers m)
               = (svs, Some (ac, tc))
             \<and> ac \<noteq> 0 \<and> client_ok (first ses) \<and> input ses = Payload n (Numbers numbers)"
  then have u: "update_servers_status (is_server_alive (first ses)) (now (first ses)) (servers m)
               = (svs, Some (ac, tc))"
    and ac: "ac \<noteq> 0" and c: "client_ok (first ses)"
    and i: "input ses = Payload n (Numbers numbers)"
    by simp_all
  show "total_operations (snd (handle_distributed_sort ses m)) = total_operations m + 1"
    by (rule handler_dispatch(1) [OF u ac c i refl])
  show "successful_operations (snd (handle_distributed_sort ses m))
             = successful_operations m
               + (if fst (process_distributed (second ses) numbers
                            (m\<lparr>servers := svs,
                               sorter_stats := (sorter_stats m)
                                 \<lparr>bytes_processed :=
                                    bytes_processed (sorter_stats m) + int n\<rparr>\<rparr>))
                  then 1 else 0)"
    by (rule handler_dispatch(2) [OF u ac c i refl])
next
  show "total_operations m \<le> total_operations (snd (handle_distributed_sort ses m))"
    and "successful_operations m \<le> successful_operations (snd (handle_distributed_sort ses m))"
    using handler_step [of m ses] by simp_all
  show "successful_operations (snd (handle_distributed_sort ses m))
              \<le> total_operations (snd (handle_distributed_sort ses m))"
    if "successful_operations m \<le> total_operations m"
    using handler_step [of m ses] that by simp
  show "successful_operations (run_sessions sessions initial)
        \<le> total_operations (run_sessions sessions initial)"
    using run_sessions_step [of initial sessions] by (simp add: initial_def)
  show "total_operations (run_sessions sessions initial)
        \<le> total_operations (run_sessions (sessions @ later) initial)"
    and "successful_operations (run_sessions sessions initial)
        \<le> successful_operations (run_sessions (sessions @ later) initial)"
    using run_sessions_step [of "run_sessions sessions initial" later]
    by (simp_all add: run_sessions_append)
qed


section \<open>The properties on the fleet of three workers\<close>

lemma probe_fleet:
  "update_servers_status (is_server_alive honest) (now honest) (servers fleet)
     = (probed, Some (3, 3))"
  by (simp add: update_servers_status_def honest_def fleet_def initial_def registered_def
                probed_def)

lemma probe_fleet_refusing:
  "update_servers_status (is_server_alive refusing) (now refusing) (servers fleet)
     = (probed, Some (3, 3))"
  by (simp add: update_servers_status_def refusing_def honest_def fleet_def initial_def
                registered_def probed_def)

lemma active_probed: "get_active_servers probed = probed"
  by (simp add: get_active_servers_def probed_def fleet_def initial_def registered_def)

lemma probed_nonempty: "probed \<noteq> []"
  by (simp add: probed_def fleet_def)

theorem dispatch_sorts_witness:
  "\<exists>out m'. process_distributed honest [9, 2, 7, 1, 8, 3] fleet = (True, [Sorted out], m')
            \<and> sorted out \<and> mset out = mset [9, 2, 7, 1, 8, 3]"
proof (rule dispatch_sorts [OF probe_fleet])
  show "get_active_servers probed \<noteq> []"
    by (simp add: active_probed probed_nonempty)
  show "\<forall>srv \<in> set (get_active_servers probed). \<forall>chunk.
          \<exists>t xs. network honest srv chunk = Replied t xs \<and> sorted xs \<and> mset xs = mset chunk"
    by (simp add: honest_def)
  show "client_ok honest" by (simp add: honest_def)
qed

theorem numbers_sorted_counts_attempts_witness:
  "numbers_sorted (sorter_stats (snd (snd (process_distributed refusing [9, 2, 7, 1, 8, 3] fleet))))
     = 6"
proof -
  have "get_active_servers probed \<noteq> []"
    by (simp add: active_probed probed_nonempty)
  from numbers_sorted_counts_attempts [OF probe_fleet_refusing this, of "[9, 2, 7, 1, 8, 3]"]
  show ?thesis by (simp add: fleet_def initial_def)
qed







theorem dispatch_counters_witness:
  "total_operations (snd (handle_distributed_sort sort_session fleet)) = 1
   \<and> successful_operations (snd (handle_distributed_sort sort_session fleet))
       \<le> total_operations (snd (handle_distributed_sort sort_session fleet))"
proof -
  have u: "update_servers_status (is_server_alive (first sort_session))
             (now (first sort_session)) (servers fleet) = (probed, Some (3, 3))"
    using probe_fleet by (simp add: sort_session_def)
  have c: "client_ok (first sort_session)"
    by (simp add: sort_session_def honest_def)
  have i: "input sort_session = Payload 18 (Numbers [9, 2, 7, 1, 8, 3])"
    by (simp add: sort_session_def)
  have z: "total_operations fleet = 0" "successful_operations fleet = 0"
    by (simp_all add: fleet_def initial_def)
  note t = dispatch_counters [of sort_session fleet "[]" "[]"]
  from t [THEN conjunct1, rule_format, of probed 3 3 18 "[9, 2, 7, 1, 8, 3]"] u c i
  have "total_operations (snd (handle_distributed_sort sort_session fleet))
          = total_operations fleet + 1"
    by simp
  moreover from t z have "successful_operations (snd (handle_distributed_sort sort_session fleet))
       \<le> total_operations (snd (handle_distributed_sort sort_session fleet))"
    by simp
  ultimately show ?thesis by (simp add: z)
qed


end
